theory Spec2Isabelle
  imports Main "HOL-Library.Word" "HOL-Library.Multiset"
begin

unbundle bit_operations_syntax

section \<open>Errors of the Python program\<close>

text \<open>
  Every exception the modelled code can raise is a value. Python integers are
  unbounded, so ranks, prime products and bit patterns are \<^typ>\<open>int\<close>.
\<close>

datatype error =
  ZeroDivisionError | KeyError | ValueError | AttributeError | UnsupportedHandSize

section \<open>itertools.combinations\<close>

text \<open>
  \<^verbatim>\<open>itertools.combinations(xs, r)\<close> yields the r-element subsequences of xs in the
  lexicographic order of their index tuples: first all that start with the head,
  then those of the tail.
\<close>

fun combinations :: "'a list \<Rightarrow> nat \<Rightarrow> 'a list list" where
  "combinations xs 0 = [[]]"
| "combinations [] (Suc r) = []"
| "combinations (x # xs) (Suc r) =
     map ((#) x) (combinations xs r) @ combinations xs (Suc r)"

section \<open>Loops and statements that can raise\<close>

text \<open>
  Sequencing of statements that may raise: the first exception ends the
  computation.
\<close>

definition and_then :: "error + 'a \<Rightarrow> ('a \<Rightarrow> error + 'b) \<Rightarrow> error + 'b" where
  "and_then m f = (case m of Inl e \<Rightarrow> Inl e | Inr x \<Rightarrow> f x)"

text \<open>
  \<^verbatim>\<open>for x in xs: body\<close>, with the variables the body assigns as the state.
\<close>

fun for_each :: "'a list \<Rightarrow> ('a \<Rightarrow> 's \<Rightarrow> error + 's) \<Rightarrow> 's \<Rightarrow> error + 's" where
  "for_each [] body s = Inr s"
| "for_each (x # xs) body s = and_then (body x s) (for_each xs body)"

text \<open>
  \<^verbatim>\<open>kickers = list(xs); kickers.remove(x)\<close>: a copy without the first occurrence
  of x; \<^verbatim>\<open>remove\<close> raises ValueError when x does not occur.
\<close>

definition list_remove :: "'a \<Rightarrow> 'a list \<Rightarrow> error + 'a list" where
  "list_remove x xs = (if x \<in> set xs then Inr (remove1 x xs) else Inl ValueError)"

section \<open>The card module\<close>

text \<open>
  Modelled from the spec: \<^verbatim>\<open>treys/card.py\<close> is not among the sources. The spec
  (sections 1 and 3) requires of it a fixed table of 13 distinct small primes
  indexed by rank 0..12, the smallest prime for the lowest rank; these are the
  first 13 primes.
\<close>

definition PRIMES :: "int list" where
  "PRIMES = [2, 3, 5, 7, 11, 13, 17, 19, 23, 29, 31, 37, 41]"

text \<open>
  Modelled from the spec: \<^verbatim>\<open>card.product_from_rankbits\<close> is not among the
  sources. Given a 13-bit mask, one bit for each of the 13 ranks, it returns the
  cards the mask represents (here: their ranks, lowest first) and the product of
  their primes (spec, section 1).
\<close>

definition product_from_rankbits :: "int \<Rightarrow> nat list \<times> int" where
  "product_from_rankbits rankbits =
     (let current_cards = filter (\<lambda>i. bit rankbits i) [0..<13]
      in (current_cards, prod_list (map (\<lambda>i. PRIMES ! i) current_cards)))"

section \<open>treys/lookup.py: the bit-sequence generator\<close>

text \<open>
  The expression that \<^verbatim>\<open>next_word\<close> evaluates before each \<^verbatim>\<open>yield\<close> (once
  on \<^verbatim>\<open>bits\<close> before the loop, then on \<^verbatim>\<open>w\<close> in the loop body):
  \<^verbatim>\<open>t = (w | (w - 1)) + 1; w = t | ((((t & -t) // (w & -w)) >> 1) - 1)\<close>.
  Python's \<^verbatim>\<open>//\<close> rounds towards minus infinity, as \<open>div\<close> on \<^typ>\<open>int\<close> does,
  and raises ZeroDivisionError for a zero divisor; \<^verbatim>\<open>|\<close>, \<^verbatim>\<open>&\<close> and \<^verbatim>\<open>>>\<close> act on
  the two's complement of unbounded integers, as \<open>OR\<close>, \<open>AND\<close> and \<open>drop_bit\<close> do.
\<close>

definition next_bits :: "int \<Rightarrow> error + int" where
  "next_bits w =
     (let t = (w OR (w - 1)) + 1 in
      if (w AND - w) = 0 then Inl ZeroDivisionError
      else Inr (t OR (drop_bit 1 ((t AND - t) div (w AND - w)) - 1)))"

text \<open>
  A generator object is the word its next value is computed from:
  \<^verbatim>\<open>next_word(bits)\<close> creates it without running any code, and each \<^verbatim>\<open>next(gen)\<close>
  computes the following word, yields it and keeps it.
\<close>

type_synonym word_gen = int

definition next_word :: "int \<Rightarrow> word_gen" where
  "next_word bits = bits"

definition gen_next :: "word_gen \<Rightarrow> error + (int \<times> word_gen)" where
  "gen_next g = (case next_bits g of Inl e \<Rightarrow> Inl e | Inr w \<Rightarrow> Inr (w, w))"

text \<open>
  The first n values of a generator, as the loops
  \<^verbatim>\<open>for i in range(n): f = next(gen); xs.append(f)\<close> collect them.
\<close>

fun yields :: "nat \<Rightarrow> word_gen \<Rightarrow> error + int list" where
  "yields 0 g = Inr []"
| "yields (Suc n) g =
     (case gen_next g of
        Inl e \<Rightarrow> Inl e
      | Inr (f, g') \<Rightarrow>
          (case yields n g' of Inl e \<Rightarrow> Inl e | Inr fs \<Rightarrow> Inr (f # fs)))"


section \<open>treys/lookup.py: class LookupTable\<close>

definition MAX_STRAIGHT_FLUSH :: int where
  "MAX_STRAIGHT_FLUSH = 10"

definition MAX_FOUR_OF_A_KIND :: int where
  "MAX_FOUR_OF_A_KIND = 166"

definition MAX_FULL_HOUSE :: int where
  "MAX_FULL_HOUSE = 322"

definition MAX_FLUSH :: int where
  "MAX_FLUSH = 1599"

definition MAX_STRAIGHT :: int where
  "MAX_STRAIGHT = 1609"

definition MAX_THREE_OF_A_KIND :: int where
  "MAX_THREE_OF_A_KIND = 2467"

definition MAX_TWO_PAIR :: int where
  "MAX_TWO_PAIR = 3325"

definition MAX_PAIR :: int where
  "MAX_PAIR = 6185"

definition MAX_HIGH_CARD :: int where
  "MAX_HIGH_CARD = 7462"

text \<open>The dictionary \<^verbatim>\<open>MAX_TO_RANK_CLASS\<close>, in the order of its keys.\<close>

definition MAX_TO_RANK_CLASS :: "(int \<times> nat) list" where
  "MAX_TO_RANK_CLASS =
     [(MAX_STRAIGHT_FLUSH, 1), (MAX_FOUR_OF_A_KIND, 2), (MAX_FULL_HOUSE, 3),
      (MAX_FLUSH, 4), (MAX_STRAIGHT, 5), (MAX_THREE_OF_A_KIND, 6),
      (MAX_TWO_PAIR, 7), (MAX_PAIR, 8), (MAX_HIGH_CARD, 9)]"

definition RANK_CLASS_TO_STRING :: "(nat \<times> string) list" where
  "RANK_CLASS_TO_STRING =
     [(1, ''Straight Flush''), (2, ''Four of a Kind''), (3, ''Full House''),
      (4, ''Flush''), (5, ''Straight''), (6, ''Three of a Kind''),
      (7, ''Two Pair''), (8, ''Pair''), (9, ''High Card'')]"

text \<open>
  The two dictionaries of a table object. The values are ranks in the
  five-card table and ranks or lists of ranks in the draw tables.
\<close>

record 'v lookup_table =
  flush :: "int \<rightharpoonup> 'v"
  unsuited :: "int \<rightharpoonup> 'v"

text \<open>
  The state of an assignment loop is the dictionary being filled and the
  variable \<^verbatim>\<open>rank\<close>. \<^verbatim>\<open>d[product] = rank; rank += 1\<close>:
\<close>

definition set_rank :: "int \<Rightarrow> (int \<rightharpoonup> int) \<times> int \<Rightarrow> error + (int \<rightharpoonup> int) \<times> int" where
  "set_rank product = (\<lambda>(d, rank). Inr (d(product \<mapsto> rank), rank + 1))"

definition backwards_ranks :: "nat list" where
  "backwards_ranks = [12, 11, 10, 9, 8, 7, 6, 5, 4, 3, 2, 1, 0]"

definition straight_flushes :: "int list" where
  "straight_flushes = [7936, 3968, 1984, 992, 496, 248, 124, 62, 31, 4111]"

text \<open>
  The inner loop of \<^verbatim>\<open>build_flushes\<close> that computes \<^verbatim>\<open>notSF\<close>:
  \<^verbatim>\<open>not f ^ sf\<close> holds when \<^verbatim>\<open>f ^ sf\<close> is 0.
\<close>

definition not_straight_flush :: "int \<Rightarrow> int list \<Rightarrow> bool" where
  "not_straight_flush f sfs =
     fold (\<lambda>sf notSF. if f XOR sf = 0 then False else notSF) sfs True"

text \<open>
  The loop that collects the flush patterns, over
  \<^verbatim>\<open>range(1277 + len(straight_flushes) - 1)\<close>, and the reversal that follows it.
\<close>

definition flush_patterns :: "error + int list" where
  "flush_patterns =
     and_then
       (for_each [0..<1277 + length straight_flushes - 1]
          (\<lambda>i (gen, flushes).
             and_then (gen_next gen)
               (\<lambda>(f, gen'). Inr (gen', if not_straight_flush f straight_flushes
                                        then flushes @ [f] else flushes)))
          (next_word 31, []))
       (\<lambda>(gen, flushes). Inr (rev flushes))"

text \<open>
  The assignment loops of \<^verbatim>\<open>build_flushes\<close> and
  \<^verbatim>\<open>build_straight_and_highcards\<close>; each returns the dictionary and the value
  of \<^verbatim>\<open>rank\<close> after the loop.
\<close>

definition rankbits_loop ::
  "int list \<Rightarrow> (int \<rightharpoonup> int) \<times> int \<Rightarrow> error + (int \<rightharpoonup> int) \<times> int" where
  "rankbits_loop patterns = for_each patterns (\<lambda>sf. set_rank (snd (product_from_rankbits sf)))"

definition build_straight_and_highcards ::
  "int lookup_table \<Rightarrow> int list \<Rightarrow> int list \<Rightarrow> error + int lookup_table" where
  "build_straight_and_highcards self straights highcards =
     and_then (rankbits_loop straights (unsuited self, MAX_FLUSH + 1))
       (\<lambda>(d, rank).
     and_then (rankbits_loop highcards (d, MAX_PAIR + 1))
       (\<lambda>(d, rank). Inr (self\<lparr>unsuited := d\<rparr>)))"

definition build_flushes :: "int lookup_table \<Rightarrow> error + int lookup_table" where
  "build_flushes self =
     and_then flush_patterns
       (\<lambda>flushes.
     and_then (rankbits_loop straight_flushes (flush self, 1))
       (\<lambda>(d, rank).
     and_then (rankbits_loop flushes (d, MAX_FULL_HOUSE + 1))
       (\<lambda>(d, rank).
     build_straight_and_highcards (self\<lparr>flush := d\<rparr>) straight_flushes flushes)))"

text \<open>The five passes of \<^verbatim>\<open>build_multiples\<close>, each from its start rank.\<close>

definition four_of_a_kind_pass :: "(int \<rightharpoonup> int) \<Rightarrow> error + (int \<rightharpoonup> int) \<times> int" where
  "four_of_a_kind_pass d =
     for_each backwards_ranks
       (\<lambda>i s. and_then (list_remove i backwards_ranks)
          (\<lambda>kickers. for_each kickers
             (\<lambda>k. set_rank (PRIMES ! i ^ 4 * PRIMES ! k)) s))
       (d, MAX_STRAIGHT_FLUSH + 1)"

definition full_house_pass :: "(int \<rightharpoonup> int) \<Rightarrow> error + (int \<rightharpoonup> int) \<times> int" where
  "full_house_pass d =
     for_each backwards_ranks
       (\<lambda>i s. and_then (list_remove i backwards_ranks)
          (\<lambda>pairranks. for_each pairranks
             (\<lambda>pr. set_rank (PRIMES ! i ^ 3 * PRIMES ! pr ^ 2)) s))
       (d, MAX_FOUR_OF_A_KIND + 1)"

definition three_of_a_kind_pass :: "(int \<rightharpoonup> int) \<Rightarrow> error + (int \<rightharpoonup> int) \<times> int" where
  "three_of_a_kind_pass d =
     for_each backwards_ranks
       (\<lambda>r s. and_then (list_remove r backwards_ranks)
          (\<lambda>kickers. for_each (combinations kickers 2)
             (\<lambda>kickers s.
                case kickers of
                  [c1, c2] \<Rightarrow> set_rank (PRIMES ! r ^ 3 * PRIMES ! c1 * PRIMES ! c2) s
                | _ \<Rightarrow> Inl ValueError) s))
       (d, MAX_STRAIGHT + 1)"

definition two_pair_pass :: "(int \<rightharpoonup> int) \<Rightarrow> error + (int \<rightharpoonup> int) \<times> int" where
  "two_pair_pass d =
     for_each (combinations backwards_ranks 2)
       (\<lambda>tp s.
          case tp of
            [pair1, pair2] \<Rightarrow>
              and_then (list_remove pair1 backwards_ranks)
                (\<lambda>kickers. and_then (list_remove pair2 kickers)
                (\<lambda>kickers. for_each kickers
                   (\<lambda>kicker. set_rank
                      (PRIMES ! pair1 ^ 2 * PRIMES ! pair2 ^ 2 * PRIMES ! kicker)) s))
          | _ \<Rightarrow> Inl ValueError)
       (d, MAX_THREE_OF_A_KIND + 1)"

definition pair_pass :: "(int \<rightharpoonup> int) \<Rightarrow> error + (int \<rightharpoonup> int) \<times> int" where
  "pair_pass d =
     for_each backwards_ranks
       (\<lambda>pairrank s. and_then (list_remove pairrank backwards_ranks)
          (\<lambda>kickers. for_each (combinations kickers 3)
             (\<lambda>kickers s.
                case kickers of
                  [k1, k2, k3] \<Rightarrow>
                    set_rank (PRIMES ! pairrank ^ 2 * PRIMES ! k1
                                * PRIMES ! k2 * PRIMES ! k3) s
                | _ \<Rightarrow> Inl ValueError) s))
       (d, MAX_TWO_PAIR + 1)"

definition build_multiples :: "int lookup_table \<Rightarrow> error + int lookup_table" where
  "build_multiples self =
     and_then (four_of_a_kind_pass (unsuited self)) (\<lambda>(d, rank).
     and_then (full_house_pass d) (\<lambda>(d, rank).
     and_then (three_of_a_kind_pass d) (\<lambda>(d, rank).
     and_then (two_pair_pass d) (\<lambda>(d, rank).
     and_then (pair_pass d) (\<lambda>(d, rank).
     Inr (self\<lparr>unsuited := d\<rparr>))))))"

definition build :: "error + int lookup_table" where
  "build =
     and_then (build_flushes \<lparr>flush = Map.empty, unsuited = Map.empty\<rparr>) build_multiples"

section \<open>treys/lookup.py: class LookupTableThreeCards\<close>

definition ThreeCards_MAX_STRAIGHT_FLUSH :: int where
  "ThreeCards_MAX_STRAIGHT_FLUSH = 10"

definition ThreeCards_MAX_FOUR_OF_A_KIND :: int where
  "ThreeCards_MAX_FOUR_OF_A_KIND = 179"

definition ThreeCards_MAX_FULL_HOUSE :: int where
  "ThreeCards_MAX_FULL_HOUSE = 348"

definition ThreeCards_MAX_FLUSH :: int where
  "ThreeCards_MAX_FLUSH = 570"

definition ThreeCards_MAX_STRAIGHT :: int where
  "ThreeCards_MAX_STRAIGHT = 580"

definition ThreeCards_MAX_THREE_OF_A_KIND :: int where
  "ThreeCards_MAX_THREE_OF_A_KIND = 1022"

definition ThreeCards_MAX_TWO_PAIR :: int where
  "ThreeCards_MAX_TWO_PAIR = 1464"

definition ThreeCards_MAX_PAIR :: int where
  "ThreeCards_MAX_PAIR = 1750"

text \<open>
  A value of a draw table's dictionary: the code stores lists of ranks
  (\<^verbatim>\<open>d[product] = [rank]\<close>, \<^verbatim>\<open>d[product].append(rank)\<close>) and, in the flush loop,
  bare ranks (\<^verbatim>\<open>d[product] = rank\<close>).
\<close>

datatype entry = Rank int | Ranks "int list"

text \<open>
  \<^verbatim>\<open>exist_key = bool(d.get(product))\<close>: a missing key gives None, which is false,
  as are an empty list and the integer 0.
\<close>

definition exist_key :: "(int \<rightharpoonup> entry) \<Rightarrow> int \<Rightarrow> bool" where
  "exist_key d product =
     (case d product of
        None \<Rightarrow> False
      | Some (Rank r) \<Rightarrow> r \<noteq> 0
      | Some (Ranks rs) \<Rightarrow> rs \<noteq> [])"

text \<open>
  \<^verbatim>\<open>if exist_key: d[product].append(rank) else: d[product] = [rank]\<close>; an integer
  has no \<^verbatim>\<open>append\<close>.
\<close>

definition add_rank :: "int \<Rightarrow> int \<Rightarrow> (int \<rightharpoonup> entry) \<Rightarrow> error + (int \<rightharpoonup> entry)" where
  "add_rank product rank d =
     (if exist_key d product
      then (case d product of
              Some (Ranks rs) \<Rightarrow> Inr (d(product \<mapsto> Ranks (rs @ [rank])))
            | _ \<Rightarrow> Inl AttributeError)
      else Inr (d(product \<mapsto> Ranks [rank])))"

text \<open>The same, followed by \<^verbatim>\<open>rank += 1\<close>.\<close>

definition add_next ::
  "int \<Rightarrow> (int \<rightharpoonup> entry) \<times> int \<Rightarrow> error + (int \<rightharpoonup> entry) \<times> int" where
  "add_next product =
     (\<lambda>(d, rank). and_then (add_rank product rank d) (\<lambda>d. Inr (d, rank + 1)))"

text \<open>
  The loop over the straight windows, shared by \<^verbatim>\<open>build_flushes\<close> and
  \<^verbatim>\<open>build_straights\<close>: the counter \<^verbatim>\<open>co\<close> advances \<^verbatim>\<open>rank\<close> after every tenth
  pattern.
\<close>

definition window_loop ::
  "int list \<Rightarrow> (int \<rightharpoonup> entry) \<times> int \<Rightarrow> error + (int \<rightharpoonup> entry) \<times> int \<times> int" where
  "window_loop patterns =
     (\<lambda>(d, rank).
        for_each patterns
          (\<lambda>sf (d, rank, co).
             and_then (add_rank (snd (product_from_rankbits sf)) rank d)
               (\<lambda>d. Inr (if co = 9 then (d, rank + 1, 0) else (d, rank, co + 1))))
          (d, rank, 0 :: int))"

text \<open>
  The flush loop of the draw tables, \<^verbatim>\<open>self.flush[product] = rank; rank += 1\<close>.
\<close>

definition draw_flush_loop ::
  "int list \<Rightarrow> (int \<rightharpoonup> entry) \<times> int \<Rightarrow> error + (int \<rightharpoonup> entry) \<times> int" where
  "draw_flush_loop flushes =
     for_each flushes
       (\<lambda>f (d, rank). Inr (d(snd (product_from_rankbits f) \<mapsto> Rank rank), rank + 1))"

text \<open>
  \<^verbatim>\<open>flushes = list(set(flushes) - set(straight_flushes)); flushes.sort();
  flushes.reverse()\<close>
\<close>

definition remaining_flushes :: "int list \<Rightarrow> int list \<Rightarrow> int list" where
  "remaining_flushes flushes sfs = rev (sorted_list_of_set (set flushes - set sfs))"

text \<open>
  The pattern lists of \<^verbatim>\<open>LookupTableThreeCards.build_flushes\<close>:
  \<^verbatim>\<open>straight_flushes\<close> and the list \<^verbatim>\<open>flushes\<close> before the set difference.
\<close>

definition ThreeCards_patterns :: "error + int list \<times> int list" where
  "ThreeCards_patterns =
     and_then (yields 9 (next_word 7)) (\<lambda>fs.
     let sequence = rev (7 # fs);
         straight_flushes =
           concat (map (\<lambda>i. map (\<lambda>a. push_bit i a) sequence) [8, 7, 6, 5, 4, 3, 2, 1, 0 :: nat])
     in
     and_then (yields 5 (next_word 4099)) (\<lambda>fs.
     let straight_flushes = straight_flushes @ 4099 # fs in
     and_then (yields 3 (next_word 7)) (\<lambda>fs.
     let straight_flushes = straight_flushes @ 7 # fs in
     and_then (yields 285 (next_word 7)) (\<lambda>flushes.
     Inr (straight_flushes, flushes)))))"

definition ThreeCards_build_straights ::
  "entry lookup_table \<Rightarrow> int list \<Rightarrow> error + entry lookup_table" where
  "ThreeCards_build_straights self straights =
     and_then (window_loop straights (unsuited self, ThreeCards_MAX_FLUSH + 1))
       (\<lambda>(d, rank, co). Inr (self\<lparr>unsuited := d\<rparr>))"

definition ThreeCards_build_flushes :: "entry lookup_table \<Rightarrow> error + entry lookup_table" where
  "ThreeCards_build_flushes self =
     and_then ThreeCards_patterns (\<lambda>(straight_flushes, flushes).
     and_then (window_loop straight_flushes (flush self, 1)) (\<lambda>(d, rank, co).
     let flushes = remaining_flushes flushes straight_flushes in
     and_then (draw_flush_loop flushes (d, ThreeCards_MAX_FULL_HOUSE + 1)) (\<lambda>(d, rank).
     ThreeCards_build_straights (self\<lparr>flush := d\<rparr>) straight_flushes)))"

text \<open>
  The loops of \<^verbatim>\<open>LookupTableThreeCards.build_multiples\<close>. The source repeats
  the first three verbatim: over a three of a kind, over a pair with a kicker,
  and over three distinct ranks.
\<close>

definition trips_loop :: "(int \<rightharpoonup> entry) \<times> int \<Rightarrow> error + (int \<rightharpoonup> entry) \<times> int" where
  "trips_loop = for_each backwards_ranks (\<lambda>i. add_next (PRIMES ! i ^ 3))"

definition pair_kicker_loop :: "(int \<rightharpoonup> entry) \<times> int \<Rightarrow> error + (int \<rightharpoonup> entry) \<times> int" where
  "pair_kicker_loop =
     for_each backwards_ranks
       (\<lambda>i s. and_then (list_remove i backwards_ranks)
          (\<lambda>kickers. for_each kickers (\<lambda>k. add_next (PRIMES ! i ^ 2 * PRIMES ! k)) s))"

definition highcard_loop :: "(int \<rightharpoonup> entry) \<times> int \<Rightarrow> error + (int \<rightharpoonup> entry) \<times> int" where
  "highcard_loop =
     for_each (combinations backwards_ranks 3)
       (\<lambda>r s.
          case r of
            [c1, c2, c3] \<Rightarrow> add_next (PRIMES ! c1 * PRIMES ! c2 * PRIMES ! c3) s
          | _ \<Rightarrow> Inl ValueError)"

text \<open>
  The first loop of "4) Two Pairs" runs over \<^verbatim>\<open>r\<close> and \<^verbatim>\<open>k\<close>, and its body
  reads \<^verbatim>\<open>card.PRIMES[i] ** 2 * card.PRIMES[k]\<close>: the variable \<^verbatim>\<open>i\<close> is a
  parameter here, since no loop of this section binds it.
\<close>

definition two_pairs_loop ::
  "nat \<Rightarrow> (int \<rightharpoonup> entry) \<times> int \<Rightarrow> error + (int \<rightharpoonup> entry) \<times> int" where
  "two_pairs_loop i =
     for_each backwards_ranks
       (\<lambda>r s. and_then (list_remove r backwards_ranks)
          (\<lambda>kickers. for_each kickers (\<lambda>k. add_next (PRIMES ! i ^ 2 * PRIMES ! k)) s))"

text \<open>
  \<^verbatim>\<open>build_multiples\<close>: after a \<^verbatim>\<open>for i in backwards_ranks\<close> loop the variable
  \<^verbatim>\<open>i\<close> keeps the last element of the list, which is what the two-pairs loop
  reads.
\<close>

definition ThreeCards_build_multiples :: "entry lookup_table \<Rightarrow> error + entry lookup_table" where
  "ThreeCards_build_multiples self =
     and_then (trips_loop (unsuited self, ThreeCards_MAX_STRAIGHT_FLUSH + 1)) (\<lambda>s.
     and_then (pair_kicker_loop s) (\<lambda>(d, rank).
     and_then (trips_loop (d, ThreeCards_MAX_FOUR_OF_A_KIND + 1)) (\<lambda>s.
     and_then (pair_kicker_loop s) (\<lambda>(d, rank).
     and_then (pair_kicker_loop (d, ThreeCards_MAX_STRAIGHT + 1)) (\<lambda>s.
     let i = last backwards_ranks in
     and_then (highcard_loop s) (\<lambda>(d, rank).
     and_then (two_pairs_loop i (d, ThreeCards_MAX_THREE_OF_A_KIND + 1)) (\<lambda>s.
     and_then (highcard_loop s) (\<lambda>(d, rank).
     and_then (highcard_loop (d, ThreeCards_MAX_TWO_PAIR + 1)) (\<lambda>(d, rank).
     Inr (self\<lparr>unsuited := d\<rparr>))))))))))"

definition ThreeCards_build :: "error + entry lookup_table" where
  "ThreeCards_build =
     and_then (ThreeCards_build_flushes \<lparr>flush = Map.empty, unsuited = Map.empty\<rparr>)
       ThreeCards_build_multiples"

section \<open>treys/lookup.py: class LookupTableFourCards\<close>

definition FourCards_MAX_FULL_HOUSE :: int where
  "FourCards_MAX_FULL_HOUSE = 478"

definition FourCards_MAX_FLUSH :: int where
  "FourCards_MAX_FLUSH = 1152"

text \<open>
  The pattern lists of \<^verbatim>\<open>LookupTableFourCards.build_flushes\<close>; the window
  sequence is seeded with 7 there too.
\<close>

definition FourCards_patterns :: "error + int list \<times> int list" where
  "FourCards_patterns =
     and_then (yields 4 (next_word 7)) (\<lambda>fs.
     let sequence = rev (7 # fs);
         straight_flushes =
           concat (map (\<lambda>i. map (\<lambda>a. push_bit i a) sequence) [8, 7, 6, 5, 4, 3, 2, 1, 0 :: nat])
     in
     and_then (yields 3 (next_word 4103)) (\<lambda>fs.
     let straight_flushes = (straight_flushes @ 4103 # fs) @ [15] in
     and_then (yields 714 (next_word 15)) (\<lambda>flushes.
     Inr (straight_flushes, flushes))))"

definition FourCards_build_straights ::
  "entry lookup_table \<Rightarrow> int list \<Rightarrow> error + entry lookup_table" where
  "FourCards_build_straights self straights =
     and_then (window_loop straights (unsuited self, FourCards_MAX_FLUSH + 1))
       (\<lambda>(d, rank, co). Inr (self\<lparr>unsuited := d\<rparr>))"

definition FourCards_build_flushes :: "entry lookup_table \<Rightarrow> error + entry lookup_table" where
  "FourCards_build_flushes self =
     and_then FourCards_patterns (\<lambda>(straight_flushes, flushes).
     and_then (window_loop straight_flushes (flush self, 1)) (\<lambda>(d, rank, co).
     let flushes = remaining_flushes flushes straight_flushes in
     and_then (draw_flush_loop flushes (d, FourCards_MAX_FULL_HOUSE + 1)) (\<lambda>(d, rank).
     FourCards_build_straights (self\<lparr>flush := d\<rparr>) straight_flushes)))"

section \<open>omaha/omahaevaluator.py\<close>

text \<open>
  The handlers \<^verbatim>\<open>_five\<close>, \<^verbatim>\<open>_six\<close> and \<^verbatim>\<open>_seven\<close> are inherited from
  \<^verbatim>\<open>treys.evaluator.Evaluator\<close>; they are parameters of the model. A handler
  returns a rank or raises.
\<close>

type_synonym 'c handler = "'c list \<Rightarrow> error + int"

record 'c handlers =
  five :: "'c handler"
  six :: "'c handler"
  seven :: "'c handler"

text \<open>
  \<^verbatim>\<open>cards[:5]\<close> is \<open>take 5 cards\<close> and \<^verbatim>\<open>cards[5:]\<close> is \<open>drop 5 cards\<close>
  (Python slices never raise).
\<close>

definition all2cardscombos :: "'c list \<Rightarrow> 'c list list" where
  "all2cardscombos cards = combinations (take 5 cards) 2"

definition all5cardscombos :: "'c list \<Rightarrow> 'c list list" where
  "all5cardscombos cards = map (\<lambda>a. a @ drop 5 cards) (all2cardscombos cards)"

text \<open>
  The loop \<^verbatim>\<open>for combo in all5cardscombos\<close>, with the running minimum as its
  state; an exception of the scorer leaves the loop.
\<close>

fun eightnineten_loop :: "'c handler \<Rightarrow> int \<Rightarrow> 'c list list \<Rightarrow> error + int" where
  "eightnineten_loop score_five minimum [] = Inr minimum"
| "eightnineten_loop score_five minimum (combo # combos) =
     (case score_five combo of
        Inl e \<Rightarrow> Inl e
      | Inr score \<Rightarrow>
          eightnineten_loop score_five (if score < minimum then score else minimum) combos)"

definition eightnineten :: "'c handler \<Rightarrow> 'c handler" where
  "eightnineten score_five cards =
     eightnineten_loop score_five MAX_HIGH_CARD (all5cardscombos cards)"

definition hand_size_map :: "'c handlers \<Rightarrow> nat \<rightharpoonup> 'c handler" where
  "hand_size_map h =
     [5 \<mapsto> five h, 6 \<mapsto> six h, 7 \<mapsto> seven h,
      8 \<mapsto> eightnineten (five h), 9 \<mapsto> eightnineten (five h),
      10 \<mapsto> eightnineten (five h)]"

text \<open>
  Modelled from the spec: the entry point \<^verbatim>\<open>Evaluator.evaluate\<close> of
  \<^verbatim>\<open>treys/evaluator.py\<close> is not among the sources. The spec (sections 4.4 and
  7) has it dispatch on the number of cards through \<^verbatim>\<open>hand_size_map\<close> and fail
  with an "unsupported hand size" condition for a size that is not a key.
\<close>

definition evaluate :: "'c handlers \<Rightarrow> 'c handler" where
  "evaluate h cards =
     (case hand_size_map h (length cards) of
        None \<Rightarrow> Inl UnsupportedHandSize
      | Some handler \<Rightarrow> handler cards)"


section \<open>treys/card.py and treys/evaluator.py\<close>

text \<open>
  Modelled from the spec: the card representation of \<^verbatim>\<open>treys/card.py\<close> is not
  among the sources. The spec (sections 3 and 6) has a card expose a rank index
  0..12, one of four suits and the prime of its rank.
\<close>

datatype card = Card (card_rank: nat) (card_suit: nat)

definition prime_product_from_hand :: "card list \<Rightarrow> int" where
  "prime_product_from_hand cards = prod_list (map (\<lambda>c. PRIMES ! card_rank c) cards)"

text \<open>
  Modelled from the spec: the scorer \<^verbatim>\<open>Evaluator._five\<close> of
  \<^verbatim>\<open>treys/evaluator.py\<close> is not among the sources. The spec (sections 3 and
  4.4) has it look the prime product of the cards up in the five-card table:
  in \<^verbatim>\<open>flush\<close> when all the cards share a suit, in \<^verbatim>\<open>unsuited\<close> otherwise. A
  dictionary lookup of a missing key raises \<^verbatim>\<open>KeyError\<close>.
\<close>

definition Evaluator_five :: "int lookup_table \<Rightarrow> card handler" where
  "Evaluator_five table cards =
     (let product = prime_product_from_hand cards;
          lookup = (if \<forall>c \<in> set cards. card_suit c = card_suit (hd cards)
                    then flush table else unsuited table)
      in case lookup product of None \<Rightarrow> Inl KeyError | Some r \<Rightarrow> Inr r)"

text \<open>
  Modelled from the spec: the handlers \<^verbatim>\<open>Evaluator._six\<close> and
  \<^verbatim>\<open>Evaluator._seven\<close> of \<^verbatim>\<open>treys/evaluator.py\<close> are not among the sources.
  The spec (section 4.4) has them score every five-card subset of the cards and
  return the minimum rank found; the loop is that of \<^verbatim>\<open>_eightnineten\<close>, over
  the 5-card combinations of the hand.
\<close>

definition Evaluator_six :: "'c handler \<Rightarrow> 'c handler" where
  "Evaluator_six score_five cards =
     eightnineten_loop score_five MAX_HIGH_CARD (combinations cards 5)"

definition Evaluator_seven :: "'c handler \<Rightarrow> 'c handler" where
  "Evaluator_seven score_five cards =
     eightnineten_loop score_five MAX_HIGH_CARD (combinations cards 5)"

text \<open>The handlers of an evaluator whose five-card scorer is \<open>score_five\<close>.\<close>

definition Evaluator_handlers :: "'c handler \<Rightarrow> 'c handlers" where
  "Evaluator_handlers score_five =
     \<lparr>five = score_five, six = Evaluator_six score_five, seven = Evaluator_seven score_five\<rparr>"

section \<open>Notions used in the statements and proofs\<close>

text \<open>
  The number of bits set in a non-negative integer (the "k bits set" of a rank
  pattern); it is 0 for a negative argument, which has no finite bit count.
\<close>

function popcount :: "int \<Rightarrow> nat" where
  "popcount n = (if n \<le> 0 then 0 else (if odd n then 1 else 0) + popcount (n div 2))"
  by pat_completeness auto
termination
  by (relation "measure nat") auto

declare popcount.simps [simp del]

text \<open>
  The ranks that a loop of \<^const>\<open>add_next\<close> over the products ps, started at
  rank, appends under the key K.
\<close>

fun ranks_for :: "int \<Rightarrow> int \<Rightarrow> int list \<Rightarrow> int list" where
  "ranks_for K rank [] = []"
| "ranks_for K rank (p # ps) = (if p = K then [rank] else []) @ ranks_for K (rank + 1) ps"

definition lists_only :: "(int \<rightharpoonup> entry) \<Rightarrow> bool" where
  "lists_only d = (\<forall>K v. d K = Some v \<longrightarrow> (\<exists>rs. v = Ranks rs \<and> rs \<noteq> []))"

definition old_ranks :: "(int \<rightharpoonup> entry) \<Rightarrow> int \<Rightarrow> int list" where
  "old_ranks d K = (case d K of Some (Ranks rs) \<Rightarrow> rs | _ \<Rightarrow> [])"

definition appended :: "(int \<rightharpoonup> entry) \<Rightarrow> int \<Rightarrow> int list \<Rightarrow> (int \<rightharpoonup> entry)" where
  "appended d rank ps =
     (\<lambda>K. case ranks_for K rank ps of [] \<Rightarrow> d K | new \<Rightarrow> Some (Ranks (old_ranks d K @ new)))"

definition pair_params :: "(nat \<times> nat) list" where
  "pair_params = concat (map (\<lambda>r. map (Pair r) (remove1 r backwards_ranks)) backwards_ranks)"

text \<open>The product of the primes of a list of ranks.\<close>

definition mprod :: "nat list \<Rightarrow> int" where
  "mprod rs = prod_list (map (\<lambda>i. PRIMES ! i) rs)"

text \<open>For each card, the number of cards of its rank, summed over the hand.\<close>

definition pairing :: "nat list \<Rightarrow> nat" where
  "pairing rs = sum_list (map (count_list rs) rs)"


definition hole_pairs :: "(nat \<times> nat) list" where
  "hole_pairs = [(0, 1), (0, 2), (0, 3), (0, 4), (1, 2), (1, 3), (1, 4), (2, 3), (2, 4), (3, 4)]"

text \<open>
  The calls of the scorer that the loop of \<^const>\<open>eightnineten_loop\<close> makes, in
  order: one for each entry of the list, up to and including the first call
  that raises.
\<close>

fun loop_calls :: "'c handler \<Rightarrow> 'c list list \<Rightarrow> 'c list list" where
  "loop_calls score_five [] = []"
| "loop_calls score_five (combo # combos) =
     combo # (case score_five combo of Inl e \<Rightarrow> [] | Inr score \<Rightarrow> loop_calls score_five combos)"

text \<open>
  The calls of the five-card scorer in one evaluation: the hand itself for five
  cards, the 5-card combinations for six or seven, the hole pairings joined
  with the board for eight to ten, none for an unsupported size.
\<close>

definition evaluate_calls :: "'c handler \<Rightarrow> 'c list \<Rightarrow> 'c list list" where
  "evaluate_calls score_five cards =
     (if length cards = 5 then [cards]
      else if length cards \<in> {6, 7} then loop_calls score_five (combinations cards 5)
      else if length cards \<in> {8, 9, 10} then loop_calls score_five (all5cardscombos cards)
      else [])"

text \<open>The word a generator has reached after n values.\<close>

fun word_after :: "nat \<Rightarrow> int \<Rightarrow> error + int" where
  "word_after 0 g = Inr g"
| "word_after (Suc n) g = (case next_bits g of Inl e \<Rightarrow> Inl e | Inr w \<Rightarrow> word_after n w)"

definition five_bit_words :: "int list" where
  "five_bit_words = projr (yields 1286 (next_word 31))"

definition flush_list :: "int list" where
  "flush_list = rev (filter (\<lambda>f. f \<notin> set straight_flushes) five_bit_words)"

text \<open>
  The dictionary after a loop that assigns consecutive ranks, from r on, to the
  keys ks.
\<close>

fun assigned :: "int list \<Rightarrow> int \<Rightarrow> (int \<rightharpoonup> int) \<Rightarrow> (int \<rightharpoonup> int)" where
  "assigned [] r d = d"
| "assigned (k # ks) r d = assigned ks (r + 1) (d(k \<mapsto> r))"

definition ranks_of :: "int \<Rightarrow> nat list" where
  "ranks_of x = filter (\<lambda>i. bit x i) [0..<13]"

definition quad_hands :: "nat list list" where
  "quad_hands = map (\<lambda>(i, k). [i, i, i, i, k]) pair_params"

definition full_house_hands :: "nat list list" where
  "full_house_hands = map (\<lambda>(i, pr). [i, i, i, pr, pr]) pair_params"

definition trips_hands :: "nat list list" where
  "trips_hands =
     concat (map (\<lambda>r. map (\<lambda>ks. r # r # r # ks) (combinations (remove1 r backwards_ranks) 2))
       backwards_ranks)"

definition two_pair_hands :: "nat list list" where
  "two_pair_hands =
     concat (map (\<lambda>tp. map (\<lambda>k. [tp ! 0, tp ! 0, tp ! 1, tp ! 1, k])
                          (remove1 (tp ! 1) (remove1 (tp ! 0) backwards_ranks)))
       (combinations backwards_ranks 2))"

definition pair_hands :: "nat list list" where
  "pair_hands =
     concat (map (\<lambda>p. map (\<lambda>ks. p # p # ks) (combinations (remove1 p backwards_ranks) 3))
       backwards_ranks)"

definition straight_hands :: "nat list list" where
  "straight_hands = map ranks_of straight_flushes"

definition highcard_hands :: "nat list list" where
  "highcard_hands = map ranks_of flush_list"

text \<open>
  The dictionary after several assignment loops, each given by its keys and
  its first rank.
\<close>

fun layers :: "(int list \<times> int) list \<Rightarrow> (int \<rightharpoonup> int) \<Rightarrow> (int \<rightharpoonup> int)" where
  "layers [] d = d"
| "layers ((ks, r) # ls) d = layers ls (assigned ks r d)"

text \<open>The loops that fill the two dictionaries of the five-card table, in order.\<close>

definition flush_layers :: "(int list \<times> int) list" where
  "flush_layers = [(map mprod straight_hands, 1), (map mprod highcard_hands, 323)]"

definition unsuited_layers :: "(int list \<times> int) list" where
  "unsuited_layers =
     [(map mprod straight_hands, 1600), (map mprod highcard_hands, 6186),
      (map mprod quad_hands, 11), (map mprod full_house_hands, 167),
      (map mprod trips_hands, 1610), (map mprod two_pair_hands, 2468),
      (map mprod pair_hands, 3326)]"

definition unsuited_hands :: "nat list list" where
  "unsuited_hands =
     (straight_hands @ highcard_hands) @ quad_hands @ full_house_hands @ trips_hands
       @ two_pair_hands @ pair_hands"

text \<open>
  The position of the quads of rank i with kicker k in the four-of-a-kind pass:
  twelve kickers for each rank, both descending.
\<close>

definition quad_index :: "nat \<Rightarrow> nat \<Rightarrow> nat" where
  "quad_index i k = 12 * (12 - i) + (if i < k then 12 - k else 11 - k)"

section \<open>Facts about combinations\<close>

lemma length_combinations: "length (combinations xs r) = length xs choose r"
  by (induction xs r rule: combinations.induct) simp_all

lemma length_all2cardscombos:
  "length (all2cardscombos cards) = min 5 (length cards) choose 2"
  by (simp add: all2cardscombos_def length_combinations min.commute)

lemma five_choose_two: "(5::nat) choose 2 = 10"
  by (simp add: eval_nat_numeral binomial_Suc_Suc)

lemma choose_two_le_10:
  assumes "n \<le> 5"
  shows "n choose 2 \<le> 10"
proof -
  from assms consider "n = 0" | "n = 1" | "n = 2" | "n = 3" | "n = 4" | "n = 5"
    by arith
  then show ?thesis
    by cases (simp_all add: eval_nat_numeral binomial_Suc_Suc)
qed

section \<open>The 8-to-10-card path of the evaluator\<close>

lemma eightnineten_loop_Inr:
  assumes "\<forall>combo \<in> set combos. \<exists>score. score_five combo = Inr score"
  shows "eightnineten_loop score_five minimum combos =
           Inr (fold (\<lambda>combo m. min m (projr (score_five combo))) combos minimum)"
  using assms
proof (induction combos arbitrary: minimum)
  case Nil
  then show ?case by simp
next
  case (Cons combo combos)
  then obtain score where s: "score_five combo = Inr score" by auto
  have "(if score < minimum then score else minimum) = min minimum score"
    by (simp add: min_def)
  with Cons s show ?case by simp
qed

lemma fold_min_le: "fold (\<lambda>combo m. min m (f combo)) combos (minimum::int) \<le> minimum"
proof (induction combos arbitrary: minimum)
  case Nil
  show ?case by simp
next
  case (Cons c cs)
  have "fold (\<lambda>combo m. min m (f combo)) cs (min minimum (f c)) \<le> min minimum (f c)"
    by (rule Cons.IH)
  then show ?case by simp
qed

lemma fold_min_lower:
  "c \<in> set combos \<Longrightarrow> fold (\<lambda>combo m. min m (f combo)) combos (minimum::int) \<le> f c"
proof (induction combos arbitrary: minimum)
  case Nil
  then show ?case by simp
next
  case (Cons d ds)
  show ?case
  proof (cases "c = d")
    case True
    have "fold (\<lambda>combo m. min m (f combo)) ds (min minimum (f d)) \<le> min minimum (f d)"
      by (rule fold_min_le)
    with True show ?thesis by simp
  next
    case False
    with Cons.prems have "c \<in> set ds" by simp
    then show ?thesis using Cons.IH by simp
  qed
qed

lemma fold_min_attained:
  "fold (\<lambda>combo m. min m (f combo)) combos (minimum::int) = minimum
   \<or> (\<exists>c \<in> set combos. fold (\<lambda>combo m. min m (f combo)) combos minimum = f c)"
proof (induction combos arbitrary: minimum)
  case Nil
  show ?case by simp
next
  case (Cons d ds)
  from Cons.IH [of "min minimum (f d)"] show ?case
    by (auto simp: min_def split: if_splits)
qed

lemma all5cardscombos_length:
  "length (all5cardscombos cards) = min 5 (length cards) choose 2"
  by (simp add: all5cardscombos_def length_all2cardscombos)

lemma all5cardscombos_nonempty:
  assumes "5 \<le> length cards"
  shows "all5cardscombos cards \<noteq> []"
proof -
  from assms have "length (all5cardscombos cards) = 10"
    by (simp add: all5cardscombos_length five_choose_two)
  then show ?thesis by auto
qed

lemma eightnineten_loop_minimum:
  assumes ok: "\<forall>combo \<in> set combos. \<exists>score. score_five combo = Inr score \<and> score \<le> minimum"
    and ne: "combos \<noteq> []"
  shows "\<exists>m. eightnineten_loop score_five minimum combos = Inr m
           \<and> (\<exists>combo \<in> set combos. score_five combo = Inr m)
           \<and> (\<forall>combo \<in> set combos. \<forall>score. score_five combo = Inr score \<longrightarrow> m \<le> score)"
proof -
  let ?f = "\<lambda>combo. projr (score_five combo)"
  let ?m = "fold (\<lambda>combo m. min m (?f combo)) combos minimum"
  from ok have all: "\<forall>combo \<in> set combos. \<exists>score. score_five combo = Inr score"
    by blast
  have res: "eightnineten_loop score_five minimum combos = Inr ?m"
    by (rule eightnineten_loop_Inr [OF all])
  have low: "\<forall>combo \<in> set combos. \<forall>score. score_five combo = Inr score \<longrightarrow> ?m \<le> score"
  proof (intro ballI allI impI)
    fix combo score
    assume c: "combo \<in> set combos" and s: "score_five combo = Inr score"
    from fold_min_lower [OF c, of ?f minimum] s show "?m \<le> score" by simp
  qed
  have att: "\<exists>combo \<in> set combos. score_five combo = Inr ?m"
  proof -
    from fold_min_attained [of ?f combos minimum]
    consider "?m = minimum" | c where "c \<in> set combos" "?m = ?f c"
      by blast
    then show ?thesis
    proof cases
      case 1
      from ne obtain c where c: "c \<in> set combos" by (cases combos) auto
      with ok obtain score where s: "score_five c = Inr score" "score \<le> minimum"
        by blast
      from fold_min_lower [OF c, of ?f minimum] s have "?m \<le> score" by simp
      with 1 s have "score = ?m" by simp
      with s c show ?thesis by blast
    next
      case 2
      from all 2(1) obtain score where "score_five c = Inr score" by blast
      with 2 show ?thesis by auto
    qed
  qed
  from res att low show ?thesis by blast
qed

lemma combinations_5_2:
  "combinations [a, b, c, d, e] 2 =
     [[a, b], [a, c], [a, d], [a, e], [b, c], [b, d], [b, e], [c, d], [c, e], [d, e]]"
  by (simp add: eval_nat_numeral)

lemma take_5_nth:
  assumes "5 \<le> length cards"
  shows "take 5 cards = [cards ! 0, cards ! 1, cards ! 2, cards ! 3, cards ! 4]"
proof (rule nth_equalityI)
  show "length (take 5 cards) = length [cards ! 0, cards ! 1, cards ! 2, cards ! 3, cards ! 4]"
    using assms by simp
next
  fix i
  assume "i < length (take 5 cards)"
  then have "i < 5" by simp
  then consider "i = 0" | "i = 1" | "i = 2" | "i = 3" | "i = 4" by arith
  then show "take 5 cards ! i = [cards ! 0, cards ! 1, cards ! 2, cards ! 3, cards ! 4] ! i"
    by cases simp_all
qed










section \<open>The calls of the scorer\<close>

lemma loop_calls_prefix: "\<exists>n \<le> length combos. loop_calls score_five combos = take n combos"
proof (induction combos)
  case Nil
  show ?case by simp
next
  case (Cons c cs)
  show ?case
  proof (cases "score_five c")
    case (Inl e)
    have "loop_calls score_five (c # cs) = take 1 (c # cs)" using Inl by simp
    moreover have "1 \<le> length (c # cs)" by simp
    ultimately show ?thesis by blast
  next
    case (Inr s)
    from Cons.IH obtain n where n: "n \<le> length cs" "loop_calls score_five cs = take n cs"
      by blast
    have "loop_calls score_five (c # cs) = take (Suc n) (c # cs)" using Inr n by simp
    moreover have "Suc n \<le> length (c # cs)" using n by simp
    ultimately show ?thesis by blast
  qed
qed

lemma length_loop_calls: "length (loop_calls score_five combos) \<le> length combos"
  using loop_calls_prefix [of combos score_five] by auto

lemma loop_calls_all:
  "\<forall>c \<in> set combos. \<exists>s. score_five c = Inr s \<Longrightarrow> loop_calls score_five combos = combos"
  by (induction combos) auto

lemma loop_calls_cong:
  "\<forall>c \<in> set (loop_calls f combos). g c = f c \<Longrightarrow>
   eightnineten_loop g minimum combos = eightnineten_loop f minimum combos"
proof (induction combos arbitrary: minimum)
  case Nil
  show ?case by simp
next
  case (Cons c cs)
  from Cons.prems have gc: "g c = f c" by simp
  show ?case
  proof (cases "f c")
    case (Inl e)
    with gc show ?thesis by simp
  next
    case (Inr s)
    with Cons.prems have "\<forall>c \<in> set (loop_calls f cs). g c = f c" by simp
    from Cons.IH [OF this] Inr gc show ?thesis by simp
  qed
qed

lemma choose_6_5: "(6::nat) choose 5 = 6"
  by (simp add: eval_nat_numeral binomial_Suc_Suc)

lemma choose_7_5: "(7::nat) choose 5 = 21"
  by (simp add: eval_nat_numeral binomial_Suc_Suc)

lemma length_evaluate_calls: "length (evaluate_calls score_five cards) \<le> 21"
proof -
  consider "length cards = 5" | "length cards = 6" | "length cards = 7"
    | "length cards \<in> {8, 9, 10}" | "length cards \<notin> {5, 6, 7, 8, 9, 10}" by blast
  then show ?thesis
  proof cases
    case 1
    then show ?thesis by (simp add: evaluate_calls_def)
  next
    case 2
    have "length (loop_calls score_five (combinations cards 5)) \<le> 6"
      using length_loop_calls [of score_five "combinations cards 5"]
      by (simp add: length_combinations 2 choose_6_5)
    with 2 show ?thesis by (simp add: evaluate_calls_def)
  next
    case 3
    have "length (loop_calls score_five (combinations cards 5)) \<le> 21"
      using length_loop_calls [of score_five "combinations cards 5"]
      by (simp add: length_combinations 3 choose_7_5)
    with 3 show ?thesis by (simp add: evaluate_calls_def)
  next
    case 4
    then have "5 \<le> length cards" by auto
    then have "length (all5cardscombos cards) = 10"
      by (simp add: all5cardscombos_length five_choose_two)
    with length_loop_calls [of score_five "all5cardscombos cards"]
    have "length (loop_calls score_five (all5cardscombos cards)) \<le> 10" by simp
    with 4 show ?thesis by (auto simp: evaluate_calls_def)
  next
    case 5
    then show ?thesis by (simp add: evaluate_calls_def)
  qed
qed

lemma evaluate_calls_cong:
  assumes "\<forall>c \<in> set (evaluate_calls f cards). g c = f c"
  shows "evaluate (Evaluator_handlers g) cards = evaluate (Evaluator_handlers f) cards"
proof -
  consider "length cards = 5" | "length cards = 6" | "length cards = 7"
    | "length cards \<in> {8, 9, 10}" | "length cards \<notin> {5, 6, 7, 8, 9, 10}" by blast
  then show ?thesis
  proof cases
    case 1
    with assms show ?thesis
      by (simp add: evaluate_def hand_size_map_def Evaluator_handlers_def evaluate_calls_def)
  next
    case 2
    with assms have "\<forall>c \<in> set (loop_calls f (combinations cards 5)). g c = f c"
      by (simp add: evaluate_calls_def)
    from loop_calls_cong [OF this] 2 show ?thesis
      by (simp add: evaluate_def hand_size_map_def Evaluator_handlers_def Evaluator_six_def)
  next
    case 3
    with assms have "\<forall>c \<in> set (loop_calls f (combinations cards 5)). g c = f c"
      by (simp add: evaluate_calls_def)
    from loop_calls_cong [OF this] 3 show ?thesis
      by (simp add: evaluate_def hand_size_map_def Evaluator_handlers_def Evaluator_seven_def)
  next
    case 4
    with assms have "\<forall>c \<in> set (loop_calls f (all5cardscombos cards)). g c = f c"
      by (auto simp: evaluate_calls_def)
    from loop_calls_cong [OF this] 4 show ?thesis
      by (auto simp: evaluate_def hand_size_map_def Evaluator_handlers_def eightnineten_def)
  next
    case 5
    then show ?thesis by (simp add: evaluate_def hand_size_map_def)
  qed
qed

lemma all2cardscombos_pairs:
  assumes "5 \<le> length cards"
  shows "all2cardscombos cards = map (\<lambda>(i, j). [cards ! i, cards ! j]) hole_pairs"
  by (simp add: all2cardscombos_def take_5_nth [OF assms] combinations_5_2 hole_pairs_def)

lemma hole_pairs_distinct: "distinct hole_pairs \<and> length hole_pairs = 10"
  by (simp add: hole_pairs_def)

section \<open>The word computed by the generator\<close>

lemma odd_and_neg: "odd (v::int) \<Longrightarrow> v AND - v = 1"
proof -
  assume o: "odd v"
  then obtain j where j: "v = 2 * j + 1" by (auto elim: oddE)
  have "- v = 2 * (NOT j) + 1" using j by (simp add: not_int_def)
  then have "(- v) div 2 = NOT j" by simp
  moreover have "v div 2 = j" using j by simp
  moreover have "odd (- v)" using o by simp
  ultimately show ?thesis using o
    by (subst and_int_rec) (simp)
qed

lemma pow2_and_neg: "odd (v::int) \<Longrightarrow> (2 ^ a * v) AND - (2 ^ a * v) = 2 ^ a"
proof -
  assume o: "odd v"
  have "(2 ^ a * v) AND - (2 ^ a * v) = push_bit a v AND push_bit a (- v)"
    by (simp add: push_bit_eq_mult mult.commute)
  also have "\<dots> = push_bit a (v AND - v)" by (simp add: push_bit_and)
  also have "\<dots> = 2 ^ a" using odd_and_neg [OF o] by (simp add: push_bit_eq_mult)
  finally show ?thesis .
qed

lemma or_pred: "odd (v::int) \<Longrightarrow> (2 ^ a * v) OR (2 ^ a * v - 1) = 2 ^ a * v + 2 ^ a - 1"
proof (induction a)
  case 0
  then obtain j where j: "v = 2 * j + 1" by (auto elim: oddE)
  have "v OR (v - 1) = v"
    using 0 j by (subst or_int_rec) simp
  then show ?case by simp
next
  case (Suc a)
  let ?w = "2 ^ a * v"
  have e: "2 ^ Suc a * v = 2 * ?w" by simp
  have "(2 * ?w) OR (2 * ?w - 1) = 1 + 2 * (?w OR (?w - 1))"
  proof -
    have "(2 * ?w - 1) div 2 = ?w - 1" by simp
    moreover have "odd (2 * ?w - 1)" by simp
    ultimately show ?thesis by (subst or_int_rec) simp
  qed
  with Suc show ?case by (simp add: algebra_simps)
qed

lemma or_low: "0 \<le> q \<Longrightarrow> q < 2 ^ n \<Longrightarrow> (2 ^ n * (c::int)) OR q = 2 ^ n * c + q"
proof (induction n arbitrary: q)
  case 0
  then have "q = 0" by simp
  then show ?case by simp
next
  case (Suc n)
  let ?t = "2 ^ n * c"
  have q: "0 \<le> q div 2" "q div 2 < 2 ^ n" using Suc.prems by auto
  have "(2 * ?t) OR q = of_bool (odd q) + 2 * (?t OR (q div 2))"
    by (subst or_int_rec) simp
  also have "\<dots> = of_bool (odd q) + 2 * (?t + q div 2)"
    using Suc.IH [OF q] by simp
  also have "\<dots> = 2 * ?t + q" by (cases "odd q") (auto elim: oddE)
  finally have "(2 * ?t) OR q = 2 * ?t + q" .
  moreover have "2 ^ Suc n * c = 2 * ?t" by simp
  ultimately show ?case by metis
qed

lemma next_bits_explicit:
  assumes v: "odd v" and c: "odd c" and b: "1 \<le> b" and vc: "v + 1 = 2 ^ b * c"
  shows "next_bits (2 ^ a * v) = Inr (2 ^ a * v + 2 ^ a + 2 ^ (b - 1) - 1)"
proof -
  let ?w = "2 ^ a * v"
  let ?t = "(?w OR (?w - 1)) + 1"
  have "?t = 2 ^ a * (v + 1)"
    using or_pred [OF v, of a] by (simp add: algebra_simps)
  also have "\<dots> = 2 ^ a * (2 ^ b * c)" by (simp only: vc)
  also have "\<dots> = 2 ^ (a + b) * c" by (simp add: power_add)
  finally have t: "?t = 2 ^ (a + b) * c" .
  have and_w: "?w AND - ?w = 2 ^ a" by (rule pow2_and_neg [OF v])
  have and_t: "?t AND - ?t = 2 ^ (a + b)" unfolding t by (rule pow2_and_neg [OF c])
  have quot: "(?t AND - ?t) div (?w AND - ?w) = 2 ^ b"
    unfolding and_w and_t by (simp add: power_add)
  from b obtain b' where b': "b = Suc b'" by (cases b) auto
  have dr: "drop_bit 1 ((?t AND - ?t) div (?w AND - ?w)) = 2 ^ (b - 1)"
    unfolding quot by (simp add: b' drop_bit_Suc)
  have "?t OR ((2::int) ^ (b - 1) - 1) = ?t + (2 ^ (b - 1) - 1)"
  proof -
    have "?t = 2 ^ (b - 1) * (2 ^ (a + 1) * c)"
      unfolding t by (simp add: b' power_add)
    moreover have "(2 ^ (b - 1) * (2 ^ (a + 1) * c)) OR ((2::int) ^ (b - 1) - 1)
        = 2 ^ (b - 1) * (2 ^ (a + 1) * c) + (2 ^ (b - 1) - 1)"
      by (rule or_low) simp_all
    ultimately show ?thesis by simp
  qed
  moreover have "?t = ?w + 2 ^ a" using or_pred [OF v, of a] by simp
  ultimately have fin: "?t OR ((2::int) ^ (b - 1) - 1) = ?w + 2 ^ a + 2 ^ (b - 1) - 1"
    by simp
  have "next_bits ?w =
      (if ?w AND - ?w = 0 then Inl ZeroDivisionError
       else Inr (?t OR (drop_bit 1 ((?t AND - ?t) div (?w AND - ?w)) - 1)))"
    by (simp only: next_bits_def Let_def)
  also have "\<dots> = Inr (?t OR ((2::int) ^ (b - 1) - 1))"
    by (simp only: dr) (simp only: and_w, simp)
  finally show ?thesis by (simp only: fin)
qed

lemma next_bits_neg_pow2: "next_bits (- (2 ^ a)) = Inr (- 1)"
proof -
  let ?w = "- (2 ^ a) :: int"
  have w: "?w = 2 ^ a * (- 1)" by simp
  have "(?w OR (?w - 1)) + 1 = 0"
    unfolding w using or_pred [of "- 1" a] by simp
  moreover have "?w AND - ?w = 2 ^ a"
    unfolding w using pow2_and_neg [of "- 1" a] by simp
  ultimately show ?thesis
    by (simp only: next_bits_def Let_def) simp
qed

section \<open>Counting bits\<close>

lemma popcount_0 [simp]: "popcount 0 = 0"
  by (simp add: popcount.simps)

lemma popcount_double: "0 \<le> n \<Longrightarrow> popcount (2 * n) = popcount n"
  by (cases "n = 0") (simp_all add: popcount.simps [of "2 * n"])

lemma popcount_double1: "0 \<le> n \<Longrightarrow> popcount (2 * n + 1) = Suc (popcount n)"
  by (simp add: popcount.simps [of "2 * n + 1"])

lemma popcount_1 [simp]: "popcount 1 = 1"
  using popcount_double1 [of 0] by simp

lemma popcount_shift_add:
  "0 \<le> m \<Longrightarrow> 0 \<le> r \<Longrightarrow> r < 2 ^ k \<Longrightarrow> popcount (2 ^ k * m + r) = popcount m + popcount r"
proof (induction k arbitrary: r)
  case 0
  then have "r = 0" by simp
  then show ?case by simp
next
  case (Suc k)
  obtain d c where r: "r = 2 * d + c" and c: "c = 0 \<or> c = 1"
    by (metis add.commute mult_2 add_0 even_iff_mod_2_eq_zero mod_mult_div_eq
        mult.commute odd_iff_mod_2_eq_one)
  from Suc.prems r c have d: "0 \<le> d" "d < 2 ^ k" by auto
  let ?h = "2 ^ k * m + d"
  have h: "0 \<le> ?h" using Suc.prems d by simp
  have IH: "popcount ?h = popcount m + popcount d"
    using Suc.IH [OF Suc.prems(1) d] .
  have e: "2 ^ Suc k * m + r = 2 * ?h + c" by (simp add: r algebra_simps)
  have two: "popcount (2 * x + c) = popcount x + nat c" if "0 \<le> x" for x
    using c popcount_double [OF that] popcount_double1 [OF that] by auto
  have "popcount (2 ^ Suc k * m + r) = popcount (2 * ?h + c)" by (simp only: e)
  also have "\<dots> = popcount ?h + nat c" by (rule two [OF h])
  also have "\<dots> = popcount m + (popcount d + nat c)" by (simp only: IH add.assoc)
  also have "popcount d + nat c = popcount (2 * d + c)" by (rule two [OF d(1), symmetric])
  finally show ?case by (simp only: r)
qed

lemma popcount_shift: "0 \<le> m \<Longrightarrow> popcount (2 ^ k * m) = popcount m"
  using popcount_shift_add [of m 0 k] by simp

lemma popcount_mask: "popcount (2 ^ b - 1) = b"
proof (induction b)
  case 0
  show ?case by simp
next
  case (Suc b)
  have "(2::int) ^ Suc b - 1 = 2 * (2 ^ b - 1) + 1" by simp
  moreover have "(0::int) \<le> 2 ^ b - 1" by simp
  ultimately show ?case using popcount_double1 [of "2 ^ b - 1"] Suc by simp
qed

lemma popcount_lower: "0 \<le> s \<Longrightarrow> 2 ^ popcount s - 1 \<le> s"
proof (induction s rule: popcount.induct)
  case (1 n)
  show ?case
  proof (cases "n \<le> 0")
    case True
    with 1 show ?thesis by (simp add: popcount.simps)
  next
    case False
    then have IH: "2 ^ popcount (n div 2) - 1 \<le> n div 2"
      using 1 by simp
    define h where "h = n div 2"
    define p :: int where "p = 2 ^ popcount h"
    from IH have ph: "p - 1 \<le> h" by (simp add: h_def p_def)
    from False have h0: "0 \<le> h" by (simp add: h_def)
    show ?thesis
    proof (cases "odd n")
      case True
      then have n: "n = 2 * h + 1" by (auto elim: oddE simp: h_def)
      have "popcount n = Suc (popcount h)"
        using False True by (simp add: popcount.simps [of n] h_def)
      then have "2 ^ popcount n = 2 * p" by (simp add: p_def)
      with n ph show ?thesis by linarith
    next
      case e: False
      then have n: "n = 2 * h" by (auto simp: h_def)
      have "popcount n = popcount h"
        using False e by (simp add: popcount.simps [of n] h_def)
      then have "2 ^ popcount n = p" by (simp add: p_def)
      with n ph h0 show ?thesis by linarith
    qed
  qed
qed

lemma popcount_pos: "0 < s \<Longrightarrow> 0 < popcount s"
proof (induction s rule: popcount.induct)
  case (1 n)
  show ?case
  proof (cases "odd n")
    case True
    with 1 show ?thesis by (simp add: popcount.simps [of n])
  next
    case False
    with 1 have "0 < n div 2" by presburger
    with 1 False show ?thesis by (simp add: popcount.simps [of n])
  qed
qed

lemma bits_split: "{i. bit (n::int) i} = (if odd n then {0} else {}) \<union> Suc ` {i. bit (n div 2) i}"
proof (rule set_eqI)
  fix i
  show "i \<in> {i. bit n i} \<longleftrightarrow> i \<in> (if odd n then {0} else {}) \<union> Suc ` {i. bit (n div 2) i}"
    by (cases i) (auto simp: bit_0 bit_Suc)
qed

lemma popcount_card: "0 \<le> n \<Longrightarrow> finite {i. bit n i} \<and> popcount n = card {i. bit n i}"
proof (induction n rule: popcount.induct)
  case (1 n)
  show ?case
  proof (cases "n \<le> 0")
    case True
    with 1 have "n = 0" by simp
    then show ?thesis by simp
  next
    case False
    then have IH: "finite {i. bit (n div 2) i}" "popcount (n div 2) = card {i. bit (n div 2) i}"
      using 1 by simp_all
    let ?S = "Suc ` {i. bit (n div 2) i}"
    have f: "finite ?S" using IH(1) by simp
    have c: "card ?S = popcount (n div 2)" using IH(2) by (simp add: card_image)
    have z: "0 \<notin> ?S" by auto
    show ?thesis
    proof (cases "odd n")
      case True
      then have "{i. bit n i} = insert 0 ?S" using bits_split [of n] by simp
      moreover have "popcount n = Suc (popcount (n div 2))"
        using False True by (simp add: popcount.simps [of n])
      ultimately show ?thesis using f c z by simp
    next
      case e: False
      then have "{i. bit n i} = ?S" using bits_split [of n] by simp
      moreover have "popcount n = popcount (n div 2)"
        using False e by (simp add: popcount.simps [of n])
      ultimately show ?thesis using f c by simp
    qed
  qed
qed

section \<open>Blocks of ones\<close>

lemma odd_part: "(k::int) \<noteq> 0 \<Longrightarrow> \<exists>n c. odd c \<and> k = 2 ^ n * c"
proof (induction "nat \<bar>k\<bar>" arbitrary: k rule: less_induct)
  case less
  show ?case
  proof (cases "odd k")
    case True
    then have "odd k \<and> k = 2 ^ 0 * k" by simp
    then show ?thesis by blast
  next
    case False
    then obtain h where h: "k = 2 * h" by (auto elim: evenE)
    with less.prems have "h \<noteq> 0" "nat \<bar>h\<bar> < nat \<bar>k\<bar>" by auto
    from less.hyps [OF this(2) this(1)] obtain n c where "odd c" "h = 2 ^ n * c" by blast
    with h have "odd c \<and> k = 2 ^ Suc n * c" by simp
    then show ?thesis by blast
  qed
qed

lemma block_form:
  assumes "(w::int) \<noteq> 0" and "\<forall>a. w \<noteq> - (2 ^ a)"
  shows "\<exists>a b v c. odd v \<and> odd c \<and> 1 \<le> b \<and> v + 1 = 2 ^ b * c \<and> w = 2 ^ a * v"
proof -
  from odd_part [OF assms(1)] obtain a v where v: "odd v" "w = 2 ^ a * v" by blast
  with assms(2) have "v \<noteq> - 1" by auto
  then have "v + 1 \<noteq> 0" by simp
  from odd_part [OF this] obtain b c where c: "odd c" "v + 1 = 2 ^ b * c" by blast
  have "b \<noteq> 0"
  proof
    assume "b = 0"
    with c have "odd (v + 1)" by simp
    with v show False by simp
  qed
  with v c show ?thesis by (intro exI [of _ a] exI [of _ b] exI [of _ v] exI [of _ c]) simp
qed

lemma next_bits_greater:
  assumes "w \<noteq> 0" and "w \<noteq> - 1"
  shows "\<exists>w'. next_bits w = Inr w' \<and> w < w'"
proof (cases "\<exists>a. w = - (2 ^ a)")
  case True
  then obtain a where a: "w = - (2 ^ a)" by blast
  have "a \<noteq> 0"
  proof
    assume "a = 0"
    with a have "w = - 1" by simp
    with assms(2) show False by simp
  qed
  then have "(2::int) ^ a \<ge> 2 ^ 1" by (intro power_increasing) auto
  with a have "w < - 1" by simp
  with a next_bits_neg_pow2 [of a] show ?thesis by simp
next
  case False
  with block_form [OF assms(1)] obtain a b v c
    where f: "odd v" "odd c" "1 \<le> b" "v + 1 = 2 ^ b * c" "w = 2 ^ a * v" by blast
  have "(0::int) < 2 ^ a" "(0::int) < 2 ^ (b - 1)" by simp_all
  then have "w < w + 2 ^ a + 2 ^ (b - 1) - 1" by linarith
  with next_bits_explicit [OF f(1-4), of a] f(5) show ?thesis by simp
qed

text \<open>
  A positive word is a block of b ones above a zeros, below a zero and a higher
  part m.
\<close>

lemma block_form_pos:
  assumes "0 < (w::int)"
  shows "\<exists>a b m. 1 \<le> b \<and> 0 \<le> m \<and> w = 2 ^ a * (2 ^ (b + 1) * m + 2 ^ b - 1)"
proof -
  from assms have nz: "w \<noteq> 0" by simp
  have "\<forall>a. w \<noteq> - (2 ^ a)"
  proof
    fix a
    have "- ((2::int) ^ a) < 0" by simp
    with assms show "w \<noteq> - (2 ^ a)" by linarith
  qed
  from block_form [OF nz this] obtain a b v c
    where f: "odd v" "odd c" "1 \<le> b" "v + 1 = 2 ^ b * c" "w = 2 ^ a * v" by blast
  from assms f(5) have "0 < v" by (simp add: zero_less_mult_iff)
  then have "0 < 2 ^ b * c" using f(4) by linarith
  then have "0 < c" by (simp add: zero_less_mult_iff)
  from f(2) obtain m where m: "c = 2 * m + 1" by (auto elim: oddE)
  with \<open>0 < c\<close> have "0 \<le> m" by simp
  have "v = 2 ^ b * c - 1" using f(4) by simp
  also have "\<dots> = 2 ^ (b + 1) * m + 2 ^ b - 1" by (simp add: m algebra_simps)
  finally have "w = 2 ^ a * (2 ^ (b + 1) * m + 2 ^ b - 1)" using f(5) by simp
  with f(3) \<open>0 \<le> m\<close> show ?thesis by blast
qed

lemma next_bits_block:
  assumes "1 \<le> b"
  shows "next_bits (2 ^ a * (2 ^ (b + 1) * m + 2 ^ b - 1))
           = Inr (2 ^ a * (2 ^ (b + 1) * m + 2 ^ b) + 2 ^ (b - 1) - 1)"
proof -
  let ?v = "2 ^ (b + 1) * m + 2 ^ b - 1 :: int"
  from assms have b0: "b \<noteq> 0" by simp
  have v: "odd ?v" using b0 by simp
  have c: "odd (2 * m + 1)" by simp
  have vc: "?v + 1 = 2 ^ b * (2 * m + 1)" by (simp add: algebra_simps)
  from next_bits_explicit [OF v c assms vc, of a] show ?thesis
    by (simp add: algebra_simps)
qed

lemma popcount_block:
  assumes "0 \<le> m"
  shows "popcount (2 ^ a * (2 ^ (b + 1) * m + 2 ^ b - 1)) = popcount m + b"
proof -
  have p: "(0::int) < 2 ^ b" by simp
  have d: "(2::int) ^ (b + 1) = 2 * 2 ^ b" by simp
  have r: "(0::int) \<le> 2 ^ b - 1" "(2::int) ^ b - 1 < 2 ^ (b + 1)"
    using p by (simp_all only: d)
  have "(0::int) \<le> 2 ^ (b + 1) * m + (2 ^ b - 1)" using assms by simp
  then have "popcount (2 ^ a * (2 ^ (b + 1) * m + (2 ^ b - 1)))
      = popcount (2 ^ (b + 1) * m + (2 ^ b - 1))"
    by (rule popcount_shift)
  also have "\<dots> = popcount m + popcount (2 ^ b - 1)"
    by (rule popcount_shift_add [OF assms r])
  finally show ?thesis by (simp add: popcount_mask algebra_simps)
qed

lemma popcount_next_block:
  assumes "0 \<le> m" "1 \<le> b"
  shows "popcount (2 ^ a * (2 ^ (b + 1) * m + 2 ^ b) + 2 ^ (b - 1) - 1) = popcount m + b"
proof -
  from assms(2) obtain b' where b': "b = Suc b'" by (cases b) auto
  let ?hi = "2 ^ (a + 1) * (2 * m + 1) :: int"
  have hi: "0 \<le> ?hi" using assms(1) by simp
  have e: "2 ^ a * (2 ^ (b + 1) * m + 2 ^ b) + 2 ^ (b - 1) - 1 = 2 ^ b' * ?hi + (2 ^ b' - 1)"
    by (simp add: b' algebra_simps power_add)
  have r: "(0::int) \<le> 2 ^ b' - 1" "(2::int) ^ b' - 1 < 2 ^ b'" by simp_all
  have "popcount (2 ^ b' * ?hi + (2 ^ b' - 1)) = popcount ?hi + popcount (2 ^ b' - 1)"
    by (rule popcount_shift_add [OF hi r])
  also have "popcount ?hi = popcount (2 * m + 1)"
    using assms(1) by (intro popcount_shift) simp
  also have "\<dots> = Suc (popcount m)" by (rule popcount_double1 [OF assms(1)])
  finally show ?thesis by (simp only: e) (simp add: popcount_mask b')
qed

lemma next_block_minimal:
  assumes m: "0 \<le> m" and b: "1 \<le> b"
    and w: "w = 2 ^ a * (2 ^ (b + 1) * m + 2 ^ b - 1)"
    and x: "w < x" and pc: "popcount x = popcount w"
  shows "2 ^ a * (2 ^ (b + 1) * m + 2 ^ b) + 2 ^ (b - 1) - 1 \<le> x"
proof (rule ccontr)
  assume "\<not> ?thesis"
  then have lt: "x < 2 ^ a * (2 ^ (b + 1) * m + 2 ^ b) + 2 ^ (b - 1) - 1" by simp
  from b obtain b' where b': "b = Suc b'" by (cases b) auto
  define A :: int where "A = 2 ^ a"
  define B :: int where "B = 2 ^ b'"
  define H :: int where "H = 2 ^ (a + b + 1)"
  define C :: int where "C = 2 ^ (a + b')"
  have A: "0 < A" and B: "0 < B" by (simp_all add: A_def B_def)
  have C: "C = A * B" by (simp add: A_def B_def C_def power_add)
  have P: "(2::int) ^ (a + b) = 2 * C" by (simp add: C_def b' power_add)
  have H: "H = 4 * C" by (simp add: H_def C_def b' power_add)
  have AB: "A \<le> C" using A B by (simp add: C)
  have BAB: "B \<le> C" using A B by (simp add: C)
  have w': "w = H * m + (2 * C - A)"
    by (simp add: w H_def A_def C_def b' power_add algebra_simps)
  have n': "2 ^ a * (2 ^ (b + 1) * m + 2 ^ b) + 2 ^ (b - 1) - 1 = H * m + (2 * C + B - 1)"
    by (simp add: H_def C_def B_def b' power_add algebra_simps)
  define r where "r = x - H * m"
  have xr: "x = H * m + r" by (simp add: r_def)
  have r1: "2 * C - A < r" using x w' by (simp add: r_def)
  have r2: "r < 2 * C + B - 1" using lt n' by (simp add: r_def)
  have r0: "0 \<le> r" using r1 AB A by linarith
  have rH: "r < H" using r2 H BAB A B by linarith
  have "popcount x = popcount m + popcount r"
    unfolding xr H_def by (rule popcount_shift_add [OF m r0]) (use rH in \<open>simp add: H_def\<close>)
  moreover have "popcount w = popcount m + b"
    unfolding w by (rule popcount_block [OF m])
  ultimately have pr: "popcount r = b" using pc by simp
  show False
  proof (cases "r < 2 * C")
    case True
    define s where "s = r - (2 * C - A)"
    have s: "0 < s" "s < A" using r1 True by (simp_all add: s_def)
    have "r = 2 ^ a * (2 ^ b - 1) + s"
      by (simp add: s_def A_def C_def b' power_add algebra_simps)
    moreover have "popcount (2 ^ a * (2 ^ b - 1) + s) = popcount (2 ^ b - 1) + popcount s"
      by (rule popcount_shift_add) (use s in \<open>simp_all add: A_def\<close>)
    ultimately have "popcount r = b + popcount s" by (simp add: popcount_mask)
    with pr popcount_pos [OF s(1)] show False by simp
  next
    case False
    define s where "s = r - 2 * C"
    have s: "0 \<le> s" "s < B - 1" using r2 False by (simp_all add: s_def)
    have sP: "s < 2 ^ (a + b)" using s B BAB P by linarith
    have "r = 2 ^ (a + b) * 1 + s" by (simp add: s_def P)
    moreover have "popcount (2 ^ (a + b) * 1 + s) = popcount 1 + popcount s"
      by (rule popcount_shift_add) (use s sP in simp_all)
    ultimately have "popcount r = Suc (popcount s)" by simp
    with pr b' have "popcount s = b'" by simp
    with popcount_lower [OF s(1)] have "B - 1 \<le> s" by (simp add: B_def)
    with s show False by simp
  qed
qed

lemma next_bits_pos:
  assumes "0 < w"
  shows "\<exists>w'. next_bits w = Inr w' \<and> w < w' \<and> popcount w' = popcount w
           \<and> (\<forall>x. w < x \<and> popcount x = popcount w \<longrightarrow> w' \<le> x)"
proof -
  from block_form_pos [OF assms] obtain a b m
    where f: "1 \<le> b" "0 \<le> m" "w = 2 ^ a * (2 ^ (b + 1) * m + 2 ^ b - 1)" by blast
  let ?n = "2 ^ a * (2 ^ (b + 1) * m + 2 ^ b) + 2 ^ (b - 1) - 1"
  have n: "next_bits w = Inr ?n" unfolding f(3) by (rule next_bits_block [OF f(1)])
  have "?n = w + 2 ^ a + 2 ^ (b - 1) - 1" unfolding f(3) by (simp add: algebra_simps)
  moreover have "(0::int) < 2 ^ a" "(0::int) < 2 ^ (b - 1)" by simp_all
  ultimately have gt: "w < ?n" by linarith
  have pc: "popcount ?n = popcount w"
    unfolding f(3) by (simp only: popcount_next_block [OF f(2,1)] popcount_block [OF f(2)])
  have mn: "\<forall>x. w < x \<and> popcount x = popcount w \<longrightarrow> ?n \<le> x"
    using next_block_minimal [OF f(2) f(1) f(3)] by blast
  from n gt pc mn show ?thesis by blast
qed

lemma yields_pos:
  assumes "0 < g"
  shows "\<exists>fs. yields n g = Inr fs \<and> length fs = n
           \<and> (\<forall>i < n. popcount (fs ! i) = popcount g \<and> (g # fs) ! i < fs ! i
                \<and> (\<forall>x. (g # fs) ! i < x \<and> popcount x = popcount g \<longrightarrow> fs ! i \<le> x))"
  using assms
proof (induction n arbitrary: g)
  case 0
  then show ?case by simp
next
  case (Suc n)
  from next_bits_pos [OF Suc.prems] obtain w
    where w: "next_bits g = Inr w" "g < w" "popcount w = popcount g"
      "\<forall>x. g < x \<and> popcount x = popcount g \<longrightarrow> w \<le> x" by blast
  from w(2) Suc.prems have "0 < w" by simp
  from Suc.IH [OF this] obtain fs where fs: "yields n w = Inr fs" "length fs = n"
    "\<forall>i < n. popcount (fs ! i) = popcount w \<and> (w # fs) ! i < fs ! i
                \<and> (\<forall>x. (w # fs) ! i < x \<and> popcount x = popcount w \<longrightarrow> fs ! i \<le> x)"
    by blast
  have y: "yields (Suc n) g = Inr (w # fs)"
    by (simp add: gen_next_def w(1) fs(1))
  have "\<forall>i < Suc n. popcount ((w # fs) ! i) = popcount g
          \<and> (g # w # fs) ! i < (w # fs) ! i
          \<and> (\<forall>x. (g # w # fs) ! i < x \<and> popcount x = popcount g \<longrightarrow> (w # fs) ! i \<le> x)"
  proof (intro allI impI)
    fix i assume "i < Suc n"
    show "popcount ((w # fs) ! i) = popcount g
          \<and> (g # w # fs) ! i < (w # fs) ! i
          \<and> (\<forall>x. (g # w # fs) ! i < x \<and> popcount x = popcount g \<longrightarrow> (w # fs) ! i \<le> x)"
    proof (cases i)
      case 0
      with w show ?thesis by simp
    next
      case (Suc j)
      with \<open>i < Suc n\<close> have "j < n" by simp
      with fs(3) w(3) Suc show ?thesis by simp
    qed
  qed
  with y fs(2) show ?case by simp
qed

lemma yields_zero: "yields (Suc n) 0 = Inl ZeroDivisionError"
  by (simp add: gen_next_def next_bits_def)


section \<open>Loops\<close>

lemma and_then_Inr [simp]: "and_then (Inr x) f = f x"
  by (simp add: and_then_def)

lemma and_then_Inl [simp]: "and_then (Inl e) f = Inl e"
  by (simp add: and_then_def)

lemma for_each_append:
  "for_each (xs @ ys) body s = and_then (for_each xs body s) (for_each ys body)"
proof (induction xs arbitrary: s)
  case Nil
  show ?case by simp
next
  case (Cons x xs)
  show ?case
  proof (cases "body x s")
    case (Inl e)
    then show ?thesis by simp
  next
    case (Inr s')
    with Cons.IH [of s'] show ?thesis by simp
  qed
qed

lemma for_each_cong:
  "(\<And>x s. x \<in> set xs \<Longrightarrow> body x s = body' x s) \<Longrightarrow> for_each xs body s = for_each xs body' s"
proof (induction xs arbitrary: s)
  case Nil
  show ?case by simp
next
  case (Cons x xs)
  then show ?case by (cases "body' x s") simp_all
qed

lemma for_each_map: "for_each (map f xs) body s = for_each xs (\<lambda>x. body (f x)) s"
proof (induction xs arbitrary: s)
  case Nil
  show ?case by simp
next
  case (Cons x xs)
  then show ?case by (cases "body (f x) s") simp_all
qed

lemma for_each_nested:
  "for_each xs (\<lambda>x. for_each (h x) (body x)) s =
     for_each (concat (map (\<lambda>x. map (Pair x) (h x)) xs)) (\<lambda>(x, y). body x y) s"
proof (induction xs arbitrary: s)
  case Nil
  show ?case by simp
next
  case (Cons x xs)
  have inner: "for_each (map (Pair x) (h x)) (\<lambda>(x, y). body x y) s = for_each (h x) (body x) s"
    by (simp add: for_each_map)
  show ?case
  proof (cases "for_each (h x) (body x) s")
    case (Inl e)
    with inner show ?thesis by (simp add: for_each_append)
  next
    case (Inr s')
    with inner Cons.IH [of s'] show ?thesis by (simp add: for_each_append)
  qed
qed

section \<open>Prime products determine the ranks\<close>

lemma mprod_Nil [simp]: "mprod [] = 1"
  by (simp add: mprod_def)

lemma mprod_Cons [simp]: "mprod (r # rs) = PRIMES ! r * mprod rs"
  by (simp add: mprod_def)

lemma mprod_append: "mprod (rs @ rs') = mprod rs * mprod rs'"
  by (simp add: mprod_def)

lemma prod_list_mset: "mset xs = mset ys \<Longrightarrow> prod_list xs = (prod_list ys :: int)"
  by (metis prod_mset_prod_list)

lemma mprod_mset: "mset rs = mset rs' \<Longrightarrow> mprod rs = mprod rs'"
  unfolding mprod_def by (rule prod_list_mset) simp

lemma PRIMES_gcd_all:
  "list_all (\<lambda>i. list_all (\<lambda>j. i = j \<or> gcd (PRIMES ! i) (PRIMES ! j) = 1) [0..<13]) [0..<13]"
  by code_simp

lemma PRIMES_coprime:
  assumes "i < 13" "j < 13" "i \<noteq> j"
  shows "coprime (PRIMES ! i) (PRIMES ! j)"
proof -
  have i: "i \<in> set [0..<13]" and j: "j \<in> set [0..<13]" using assms by simp_all
  from PRIMES_gcd_all have
    "\<forall>i \<in> set [0..<13]. \<forall>j \<in> set [0..<13]. i = j \<or> gcd (PRIMES ! i) (PRIMES ! j) = 1"
    by (simp only: list_all_iff)
  with i j assms(3) have "gcd (PRIMES ! i) (PRIMES ! j) = 1" by blast
  then show ?thesis by (simp only: coprime_iff_gcd_eq_1)
qed

lemma PRIMES_gt_1_all: "list_all (\<lambda>i. 1 < PRIMES ! i) [0..<13]"
  by code_simp

lemma PRIMES_gt_1:
  assumes "i < 13"
  shows "1 < PRIMES ! i"
proof -
  have i: "i \<in> set [0..<13]" using assms by simp
  from PRIMES_gt_1_all have "\<forall>i \<in> set [0..<13]. 1 < PRIMES ! i"
    by (simp only: list_all_iff)
  with i show ?thesis by blast
qed

lemma mprod_split:
  "mprod rs = PRIMES ! j ^ count_list rs j * mprod (filter (\<lambda>i. i \<noteq> j) rs)"
  by (induction rs) simp_all

lemma coprime_mprod:
  assumes "j < 13" and "\<forall>i \<in> set rs. i < 13 \<and> i \<noteq> j"
  shows "coprime (PRIMES ! j) (mprod rs)"
  unfolding mprod_def
proof (rule prod_list_coprime_right)
  fix x assume "x \<in> set (map ((!) PRIMES) rs)"
  then obtain i where "i \<in> set rs" "x = PRIMES ! i" by auto
  with assms show "coprime (PRIMES ! j) x" by (auto intro: PRIMES_coprime)
qed

lemma power_cancel_le:
  fixes p :: int
  assumes p: "1 < p" and A: "coprime p A" and e: "p ^ a * A = p ^ b * B" and le: "a \<le> b"
  shows "a = b"
proof (rule ccontr)
  assume "a \<noteq> b"
  with le have "a < b" by simp
  then obtain c where c: "b = a + Suc c" by (auto dest: less_imp_Suc_add)
  have "p ^ b * B = p ^ a * (p * (p ^ c * B))"
    by (simp only: c power_add power_Suc mult.assoc)
  with e have "p ^ a * A = p ^ a * (p * (p ^ c * B))" by (simp only:)
  moreover from p have "p ^ a \<noteq> 0" by simp
  ultimately have "A = p * (p ^ c * B)" by (metis mult_left_cancel)
  then have "p dvd A" by (rule dvdI)
  with A have "is_unit p" by (simp only: coprime_absorb_left)
  with p show False by simp
qed

lemma power_cancel:
  fixes p :: int
  assumes p: "1 < p" and A: "coprime p A" and B: "coprime p B" and e: "p ^ a * A = p ^ b * B"
  shows "a = b"
proof (cases "a \<le> b")
  case True
  show ?thesis by (rule power_cancel_le [OF p A e True])
next
  case False
  then have le: "b \<le> a" by simp
  have "b = a" by (rule power_cancel_le [OF p B e [symmetric] le])
  then show ?thesis by (rule sym)
qed

lemma mprod_count:
  assumes "\<forall>i \<in> set rs. i < 13" and "\<forall>i \<in> set rs'. i < 13" and "mprod rs = mprod rs'"
  shows "count_list rs j = count_list rs' j"
proof (cases "j < 13")
  case True
  have c1: "coprime (PRIMES ! j) (mprod (filter (\<lambda>i. i \<noteq> j) rs))"
    using assms(1) True by (intro coprime_mprod) auto
  have c2: "coprime (PRIMES ! j) (mprod (filter (\<lambda>i. i \<noteq> j) rs'))"
    using assms(2) True by (intro coprime_mprod) auto
  have e: "PRIMES ! j ^ count_list rs j * mprod (filter (\<lambda>i. i \<noteq> j) rs)
      = PRIMES ! j ^ count_list rs' j * mprod (filter (\<lambda>i. i \<noteq> j) rs')"
    by (simp only: assms(3) flip: mprod_split)
  show ?thesis by (rule power_cancel [OF PRIMES_gt_1 [OF True] c1 c2 e])
next
  case False
  with assms have "j \<notin> set rs" "j \<notin> set rs'" by auto
  then show ?thesis by simp
qed

lemma mprod_inj:
  assumes "\<forall>i \<in> set rs. i < 13" and "\<forall>i \<in> set rs'. i < 13" and "mprod rs = mprod rs'"
  shows "mset rs = mset rs'"
proof (rule multiset_eqI)
  fix j
  from mprod_count [OF assms, of j] show "count (mset rs) j = count (mset rs') j"
    by (simp add: count_mset)
qed

lemma pairing_mset: "mset rs = mset rs' \<Longrightarrow> pairing rs = pairing rs'"
proof -
  assume e: "mset rs = mset rs'"
  have "pairing xs = sum_mset (image_mset (count (mset xs)) (mset xs))" for xs :: "nat list"
  proof -
    have "count_list xs = count (mset xs)" by (rule ext) (simp add: count_mset)
    then show ?thesis
      by (simp only: pairing_def flip: sum_mset_sum_list mset_map)
  qed
  with e show ?thesis by simp
qed

lemma mprod_pairing:
  assumes "\<forall>i \<in> set rs. i < 13" and "\<forall>i \<in> set rs'. i < 13" and "mprod rs = mprod rs'"
  shows "pairing rs = pairing rs'"
  by (rule pairing_mset [OF mprod_inj [OF assms]])

section \<open>Loops that append to a draw table\<close>

lemma lists_only_empty: "lists_only Map.empty"
  by (simp add: lists_only_def)

lemma add_rank_lists_only:
  assumes "lists_only d"
  shows "add_rank p r d = Inr (d(p \<mapsto> Ranks (old_ranks d p @ [r])))"
proof (cases "d p")
  case None
  then show ?thesis by (simp add: add_rank_def exist_key_def old_ranks_def)
next
  case (Some v)
  with assms obtain rs where "v = Ranks rs" "rs \<noteq> []" by (auto simp: lists_only_def)
  with Some show ?thesis by (simp add: add_rank_def exist_key_def old_ranks_def)
qed

lemma lists_only_upd: "lists_only d \<Longrightarrow> rs \<noteq> [] \<Longrightarrow> lists_only (d(p \<mapsto> Ranks rs))"
  by (auto simp: lists_only_def)

lemma appended_Nil: "appended d r [] = d"
  by (simp add: appended_def)

lemma appended_Cons: "appended (d(p \<mapsto> Ranks (old_ranks d p @ [r]))) (r + 1) ps = appended d r (p # ps)"
proof
  fix K
  show "appended (d(p \<mapsto> Ranks (old_ranks d p @ [r]))) (r + 1) ps K = appended d r (p # ps) K"
    by (cases "ranks_for K (r + 1) ps") (auto simp: appended_def old_ranks_def)
qed

lemma add_next_loop:
  assumes "lists_only d"
  shows "for_each ps add_next (d, r) = Inr (appended d r ps, r + int (length ps))
         \<and> lists_only (appended d r ps)"
  using assms
proof (induction ps arbitrary: d r)
  case Nil
  then show ?case by (simp add: appended_Nil)
next
  case (Cons p ps)
  let ?d = "d(p \<mapsto> Ranks (old_ranks d p @ [r]))"
  have l: "lists_only ?d" using Cons.prems by (intro lists_only_upd) simp_all
  have step: "add_next p (d, r) = Inr (?d, r + 1)"
    by (simp add: add_next_def add_rank_lists_only [OF Cons.prems])
  have IH: "for_each ps add_next (?d, r + 1) = Inr (appended ?d (r + 1) ps, r + 1 + int (length ps))"
    and IH2: "lists_only (appended ?d (r + 1) ps)"
    using Cons.IH [OF l, of "r + 1"] by blast+
  have "for_each (p # ps) add_next (d, r) = for_each ps add_next (?d, r + 1)"
    by (simp add: step)
  also have "\<dots> = Inr (appended d r (p # ps), r + int (length (p # ps)))"
    by (simp only: IH appended_Cons) simp
  finally have "for_each (p # ps) add_next (d, r)
      = Inr (appended d r (p # ps), r + int (length (p # ps)))" .
  moreover from IH2 have "lists_only (appended d r (p # ps))"
    by (simp only: appended_Cons)
  ultimately show ?case ..
qed

lemma list_remove_in: "x \<in> set xs \<Longrightarrow> list_remove x xs = Inr (remove1 x xs)"
  by (simp add: list_remove_def)

lemma two_pairs_loop_flat:
  "two_pairs_loop i s = for_each (map (\<lambda>(r, k). PRIMES ! i ^ 2 * PRIMES ! k) pair_params) add_next s"
proof -
  have "two_pairs_loop i s =
      for_each backwards_ranks
        (\<lambda>r. for_each (remove1 r backwards_ranks) (\<lambda>k. add_next (PRIMES ! i ^ 2 * PRIMES ! k))) s"
    unfolding two_pairs_loop_def
    by (rule for_each_cong) (simp add: list_remove_in)
  also have "\<dots> = for_each pair_params (\<lambda>(r, k). add_next (PRIMES ! i ^ 2 * PRIMES ! k)) s"
    unfolding pair_params_def by (rule for_each_nested)
  also have "\<dots> = for_each (map (\<lambda>(r, k). PRIMES ! i ^ 2 * PRIMES ! k) pair_params) add_next s"
    by (simp add: for_each_map case_prod_unfold)
  finally show ?thesis .
qed

lemma two_pairs_products:
  "map (\<lambda>(r, k). PRIMES ! 0 ^ 2 * PRIMES ! k) pair_params =
     concat (map (\<lambda>r. map (\<lambda>k. 4 * PRIMES ! k) (remove1 r backwards_ranks)) backwards_ranks)"
  by (simp add: pair_params_def map_concat comp_def PRIMES_def)

lemma yields_Suc_Inr:
  "next_bits g = Inr w \<Longrightarrow> yields n w = Inr fs \<Longrightarrow> yields (Suc n) g = Inr (w # fs)"
  by (simp add: gen_next_def)

lemma yields_Suc_cases:
  assumes "yields (Suc n) g = Inr fs"
  obtains w fs' where "next_bits g = Inr w" "yields n w = Inr fs'" "fs = w # fs'"
  using assms by (auto simp: gen_next_def split: sum.splits)

lemma yields_length: "yields n g = Inr fs \<Longrightarrow> length fs = n"
proof (induction n arbitrary: g fs)
  case 0
  then show ?case by simp
next
  case (Suc n)
  from Suc.prems obtain w fs' where "yields n w = Inr fs'" "fs = w # fs'"
    by (rule yields_Suc_cases)
  with Suc.IH show ?case by simp
qed

lemma yields_total: "0 < g \<Longrightarrow> \<exists>fs. yields n g = Inr fs"
  using yields_pos [of g n] by blast

lemma yields_chain:
  assumes "0 < g" and "yields n g = Inr fs"
  shows "sorted_wrt (<) (g # fs) \<and> (\<forall>f \<in> set fs. popcount f = popcount g)"
  using assms
proof (induction n arbitrary: g fs)
  case 0
  then show ?case by simp
next
  case (Suc n)
  from Suc.prems(2) obtain w fs' where
    w: "next_bits g = Inr w" and y: "yields n w = Inr fs'" and fs: "fs = w # fs'"
    by (rule yields_Suc_cases)
  from next_bits_pos [OF Suc.prems(1)] w have gw: "g < w" and pc: "popcount w = popcount g"
    by auto
  with Suc.prems(1) have "0 < w" by simp
  from Suc.IH [OF this y] have s: "sorted_wrt (<) (w # fs')"
    and p: "\<forall>f \<in> set fs'. popcount f = popcount w" by blast+
  from s gw have "\<forall>f \<in> set (w # fs'). g < f" by auto
  with s p pc show ?case by (simp add: fs)
qed

lemma yields_cover:
  assumes "0 < g" and "yields n g = Inr fs"
    and "g < x" and "x \<le> last (g # fs)" and "popcount x = popcount g"
  shows "x \<in> set fs"
  using assms
proof (induction n arbitrary: g fs)
  case 0
  then show ?case by simp
next
  case (Suc n)
  from Suc.prems(2) obtain w fs' where
    w: "next_bits g = Inr w" and y: "yields n w = Inr fs'" and fs: "fs = w # fs'"
    by (rule yields_Suc_cases)
  from next_bits_pos [OF Suc.prems(1)] w have gw: "g < w" and pc: "popcount w = popcount g"
    and mn: "\<forall>x. g < x \<and> popcount x = popcount g \<longrightarrow> w \<le> x"
    by auto
  from mn Suc.prems(3,5) have wx: "w \<le> x" by blast
  show ?case
  proof (cases "x = w")
    case True
    then show ?thesis by (simp add: fs)
  next
    case False
    with wx have "w < x" by simp
    moreover from Suc.prems(4) have "x \<le> last (w # fs')" by (simp add: fs)
    moreover from gw Suc.prems(1) have "0 < w" by simp
    moreover from Suc.prems(5) pc have "popcount x = popcount w" by simp
    ultimately have "x \<in> set fs'" using Suc.IH [OF _ y] by blast
    then show ?thesis by (simp add: fs)
  qed
qed

lemma word_after_last: "yields n g = Inr fs \<Longrightarrow> word_after n g = Inr (last (g # fs))"
proof (induction n arbitrary: g fs)
  case 0
  then show ?case by simp
next
  case (Suc n)
  from Suc.prems obtain w fs' where
    w: "next_bits g = Inr w" and y: "yields n w = Inr fs'" and fs: "fs = w # fs'"
    by (rule yields_Suc_cases)
  from Suc.IH [OF y] w show ?case by (simp add: fs)
qed

lemma word_after_numeral:
  "word_after (numeral k) g =
     (case next_bits g of Inl e \<Rightarrow> Inl e | Inr w \<Rightarrow> word_after (pred_numeral k) w)"
  by (simp add: numeral_eq_Suc)

lemma word_after_1286: "word_after 1286 31 = Inr 7936"
  by (simp add: word_after_numeral next_bits_def)

lemma xor_eq_0_iff: "(a XOR b = 0) = (a = (b::int))"
  by (metis bit.xor_self xor.right_neutral xor.assoc xor.commute)

lemma not_straight_flush_iff: "not_straight_flush f sfs = (f \<notin> set sfs)"
proof -
  have "fold (\<lambda>sf notSF. if f XOR sf = 0 then False else notSF) sfs b = (b \<and> f \<notin> set sfs)" for b
    by (induction sfs arbitrary: b) (auto simp: xor_eq_0_iff)
  then show ?thesis by (simp add: not_straight_flush_def)
qed

lemma collect_loop:
  "for_each [a..<a + n]
     (\<lambda>i (gen, flushes).
        and_then (gen_next gen)
          (\<lambda>(f, gen'). Inr (gen', if P f then flushes @ [f] else flushes)))
     (g, acc) =
   (case yields n g of
      Inl e \<Rightarrow> Inl e
    | Inr fs \<Rightarrow> Inr (last (g # fs), acc @ filter P fs))"
proof (induction n arbitrary: a g acc)
  case 0
  show ?case by simp
next
  case (Suc n)
  have u: "[a..<a + Suc n] = a # [Suc a..<Suc a + n]" by (simp add: upt_rec)
  show ?case
  proof (cases "next_bits g")
    case (Inl e)
    then show ?thesis unfolding u by (simp add: gen_next_def del: upt_Suc)
  next
    case (Inr w)
    then show ?thesis
      unfolding u
      using Suc.IH [of "Suc a" w "if P w then acc @ [w] else acc"]
      by (cases "yields n w") (simp_all add: gen_next_def del: upt_Suc)
  qed
qed

lemma yields_five: "yields 1286 (next_word 31) = Inr five_bit_words"
proof -
  from yields_total [of 31 1286] obtain fs where "yields 1286 31 = Inr fs" by auto
  then show ?thesis by (simp add: five_bit_words_def next_word_def)
qed

lemma yields_five': "yields 1286 31 = Inr five_bit_words"
  using yields_five by (simp add: next_word_def)

lemma popcount_31: "popcount 31 = 5"
  by (simp add: popcount.simps)

lemma five_bit_words_sorted: "sorted_wrt (<) (31 # five_bit_words)"
  using yields_chain [OF _ yields_five'] by simp

lemma five_bit_words_popcount: "f \<in> set five_bit_words \<Longrightarrow> popcount f = 5"
  using yields_chain [OF _ yields_five'] by (simp add: popcount_31)

lemma five_bit_words_length: "length five_bit_words = 1286"
  by (rule yields_length [OF yields_five'])

lemma five_bit_words_last: "last (31 # five_bit_words) = 7936"
  using word_after_last [OF yields_five'] by (simp only: word_after_1286 sum.inject)

lemma sorted_le_last: "sorted xs \<Longrightarrow> x \<in> set xs \<Longrightarrow> x \<le> (last xs :: int)"
proof (induction xs)
  case Nil
  then show ?case by simp
next
  case (Cons y ys)
  then show ?case by (cases ys) auto
qed

lemma five_bit_words_upper:
  assumes f: "f \<in> set five_bit_words"
  shows "f \<le> 7936"
proof -
  from f have ne: "five_bit_words \<noteq> []" by auto
  have "sorted_wrt (<) five_bit_words" using five_bit_words_sorted by simp
  then have "sorted five_bit_words" by (rule strict_sorted_imp_sorted)
  from sorted_le_last [OF this f] have "f \<le> last five_bit_words" .
  moreover from ne five_bit_words_last have "last five_bit_words = 7936" by simp
  ultimately show ?thesis by simp
qed

lemma five_bit_words_lower: "f \<in> set five_bit_words \<Longrightarrow> 31 < f"
  using five_bit_words_sorted by simp

lemma five_bit_words_iff:
  "x \<in> set five_bit_words \<longleftrightarrow> popcount x = 5 \<and> 31 < x \<and> x \<le> 7936"
proof
  assume x: "x \<in> set five_bit_words"
  then show "popcount x = 5 \<and> 31 < x \<and> x \<le> 7936"
    by (simp add: five_bit_words_popcount five_bit_words_upper five_bit_words_lower)
next
  assume a: "popcount x = 5 \<and> 31 < x \<and> x \<le> 7936"
  then have l: "x \<le> last (31 # five_bit_words)" by (simp only: five_bit_words_last)
  have p: "popcount x = popcount 31" using a by (simp only: popcount_31)
  have g: "(0::int) < 31" by simp
  from a have lt: "31 < x" by simp
  show "x \<in> set five_bit_words"
    by (rule yields_cover [OF g yields_five' lt l p])
qed

lemma flush_patterns_eq: "flush_patterns = Inr flush_list"
proof -
  have n: "[0..<1277 + length straight_flushes - 1] = [0..<0 + 1286]"
    by (simp add: straight_flushes_def)
  have "for_each [0..<0 + 1286]
     (\<lambda>i (gen, flushes).
        and_then (gen_next gen)
          (\<lambda>(f, gen'). Inr (gen', if f \<notin> set straight_flushes then flushes @ [f] else flushes)))
     (31, []) =
     Inr (last (31 # five_bit_words), [] @ filter (\<lambda>f. f \<notin> set straight_flushes) five_bit_words)"
    by (simp only: collect_loop yields_five' sum.case)
  then show ?thesis
    unfolding flush_patterns_def n next_word_def not_straight_flush_iff
    by (simp add: flush_list_def)
qed

lemma straight_flush_popcounts: "\<forall>x \<in> set straight_flushes. popcount x = 5"
  by (simp add: straight_flushes_def popcount.simps)

lemma straight_flushes_in_words:
  "set straight_flushes \<inter> set five_bit_words = {7936, 3968, 1984, 992, 496, 248, 124, 62, 4111}"
proof -
  have "x \<in> set five_bit_words \<longleftrightarrow> x \<noteq> 31" if "x \<in> set straight_flushes" for x
  proof -
    from that straight_flush_popcounts have "popcount x = 5" by blast
    moreover from that have "31 \<le> x \<and> x \<le> 7936" by (auto simp: straight_flushes_def)
    ultimately show ?thesis by (auto simp: five_bit_words_iff)
  qed
  then have "set straight_flushes \<inter> set five_bit_words = set straight_flushes - {31}"
    by blast
  also have "\<dots> = {7936, 3968, 1984, 992, 496, 248, 124, 62, 4111}"
    by (auto simp: straight_flushes_def)
  finally show ?thesis .
qed

lemma flush_list_length: "length flush_list = 1277"
proof -
  let ?A = "set straight_flushes \<inter> set five_bit_words"
  have d: "distinct five_bit_words"
    using five_bit_words_sorted by (simp add: strict_sorted_iff)
  have "length flush_list = card {x \<in> set five_bit_words. x \<notin> set straight_flushes}"
    using d by (simp add: flush_list_def distinct_length_filter Int_def conj_commute)
  also have "{x \<in> set five_bit_words. x \<notin> set straight_flushes} = set five_bit_words - ?A"
    by blast
  also have "card (set five_bit_words - ?A) = card (set five_bit_words) - card ?A"
    by (rule card_Diff_subset) auto
  also have "card (set five_bit_words) = 1286"
    using d by (simp add: distinct_card five_bit_words_length)
  also have "card ?A = 9"
    by (simp only: straight_flushes_in_words) simp
  finally show ?thesis by simp
qed

lemma set_rank_loop:
  "for_each ks set_rank (d, r) = Inr (assigned ks r d, r + int (length ks))"
proof (induction ks arbitrary: d r)
  case Nil
  show ?case by simp
next
  case (Cons k ks)
  have "for_each (k # ks) set_rank (d, r) = for_each ks set_rank (d(k \<mapsto> r), r + 1)"
    by (simp add: set_rank_def)
  also have "\<dots> = Inr (assigned ks (r + 1) (d(k \<mapsto> r)), r + 1 + int (length ks))"
    by (rule Cons.IH)
  finally show ?case by (simp add: add.assoc)
qed

lemma set_rank_loop_map:
  "for_each xs (\<lambda>x. set_rank (f x)) (d, r) = Inr (assigned (map f xs) r d, r + int (length xs))"
  using set_rank_loop [of "map f xs" d r] by (simp add: for_each_map)

lemma assigned_notin: "K \<notin> set ks \<Longrightarrow> assigned ks r d K = d K"
  by (induction ks arbitrary: r d) simp_all

lemma assigned_nth:
  "distinct ks \<Longrightarrow> m < length ks \<Longrightarrow> assigned ks r d (ks ! m) = Some (r + int m)"
proof (induction ks arbitrary: r d m)
  case Nil
  then show ?case by simp
next
  case (Cons k ks)
  show ?case
  proof (cases m)
    case 0
    with Cons.prems show ?thesis by (simp add: assigned_notin)
  next
    case (Suc j)
    with Cons.prems have "assigned ks (r + 1) (d(k \<mapsto> r)) (ks ! j) = Some (r + 1 + int j)"
      by (intro Cons.IH) simp_all
    with Suc show ?thesis by (simp add: add.assoc)
  qed
qed

lemma assigned_dom: "dom (assigned ks r d) = dom d \<union> set ks"
  by (induction ks arbitrary: r d) auto

lemma product_from_rankbits_eq: "product_from_rankbits x = (ranks_of x, mprod (ranks_of x))"
  by (simp add: product_from_rankbits_def ranks_of_def mprod_def Let_def)

lemma rankbits_loop_eq:
  "rankbits_loop ps (d, r) = Inr (assigned (map (\<lambda>x. mprod (ranks_of x)) ps) r d, r + int (length ps))"
  unfolding rankbits_loop_def
  by (simp add: product_from_rankbits_eq set_rank_loop_map)

lemma backwards_ranks_upt: "backwards_ranks = rev [0..<13]"
  by code_simp

lemma set_backwards_ranks: "set backwards_ranks = {..<13}"
  by (auto simp: backwards_ranks_upt)

lemma length_pair_params: "length pair_params = 156"
  by (simp add: pair_params_def backwards_ranks_def)

lemma pair_loop_flat:
  "for_each backwards_ranks
     (\<lambda>i s. and_then (list_remove i backwards_ranks)
        (\<lambda>kickers. for_each kickers (\<lambda>k. set_rank (key i k)) s)) (d, r) =
   Inr (assigned (map (\<lambda>(i, k). key i k) pair_params) r d, r + 156)"
proof -
  have "for_each backwards_ranks
     (\<lambda>i s. and_then (list_remove i backwards_ranks)
        (\<lambda>kickers. for_each kickers (\<lambda>k. set_rank (key i k)) s)) (d, r) =
     for_each backwards_ranks
       (\<lambda>i. for_each (remove1 i backwards_ranks) (\<lambda>k. set_rank (key i k))) (d, r)"
    by (rule for_each_cong) (simp add: list_remove_in)
  also have "\<dots> = for_each pair_params (\<lambda>(i, k). set_rank (key i k)) (d, r)"
    unfolding pair_params_def by (rule for_each_nested)
  also have "\<dots> = for_each pair_params (\<lambda>p. set_rank ((\<lambda>(i, k). key i k) p)) (d, r)"
    by (simp add: case_prod_unfold)
  also have "\<dots> = Inr (assigned (map (\<lambda>(i, k). key i k) pair_params) r d,
      r + int (length pair_params))"
    by (rule set_rank_loop_map)
  finally show ?thesis by (simp add: length_pair_params)
qed

lemma four_of_a_kind_pass_eq:
  "four_of_a_kind_pass d = Inr (assigned (map mprod quad_hands) 11 d, 167)"
proof -
  have "map (\<lambda>(i, k). PRIMES ! i ^ 4 * PRIMES ! k) pair_params = map mprod quad_hands"
    by (simp add: quad_hands_def case_prod_unfold comp_def power4_eq_xxxx mult.assoc)
  then show ?thesis
    unfolding four_of_a_kind_pass_def
    by (simp add: pair_loop_flat MAX_STRAIGHT_FLUSH_def)
qed

lemma full_house_pass_eq:
  "full_house_pass d = Inr (assigned (map mprod full_house_hands) 167 d, 323)"
proof -
  have "map (\<lambda>(i, pr). PRIMES ! i ^ 3 * PRIMES ! pr ^ 2) pair_params = map mprod full_house_hands"
    by (simp add: full_house_hands_def case_prod_unfold comp_def power3_eq_cube power2_eq_square
        mult.assoc)
  then show ?thesis
    unfolding full_house_pass_def
    by (simp add: pair_loop_flat MAX_FOUR_OF_A_KIND_def)
qed

section \<open>Combinations\<close>

lemma combinations_length_elem: "ks \<in> set (combinations xs n) \<Longrightarrow> length ks = n"
  by (induction xs n arbitrary: ks rule: combinations.induct) auto

lemma combinations_subset: "ks \<in> set (combinations xs n) \<Longrightarrow> set ks \<subseteq> set xs"
proof (induction xs n arbitrary: ks rule: combinations.induct)
  case (1 xs)
  then show ?case by simp
next
  case (2 r)
  then show ?case by simp
next
  case (3 x xs r)
  from "3.prems" consider ks' where "ks = x # ks'" "ks' \<in> set (combinations xs r)"
    | "ks \<in> set (combinations xs (Suc r))" by auto
  then show ?case
  proof cases
    case 1
    with "3.IH"(1) [OF 1(2)] show ?thesis by auto
  next
    case 2
    with "3.IH"(2) [OF 2] show ?thesis by auto
  qed
qed

lemma combinations_sorted:
  "sorted_wrt P xs \<Longrightarrow> ks \<in> set (combinations xs n) \<Longrightarrow> sorted_wrt P ks"
proof (induction xs n arbitrary: ks rule: combinations.induct)
  case (1 xs)
  then show ?case by simp
next
  case (2 r)
  then show ?case by simp
next
  case (3 x xs r)
  from "3.prems"(2) consider ks' where "ks = x # ks'" "ks' \<in> set (combinations xs r)"
    | "ks \<in> set (combinations xs (Suc r))" by auto
  then show ?case
  proof cases
    case 1
    from "3.prems"(1) have s: "sorted_wrt P xs" and a: "\<forall>y \<in> set xs. P x y" by simp_all
    from "3.IH"(1) [OF s 1(2)] have "sorted_wrt P ks'" .
    moreover from combinations_subset [OF 1(2)] a have "\<forall>y \<in> set ks'. P x y" by blast
    ultimately show ?thesis by (simp add: 1(1))
  next
    case 2
    from "3.prems"(1) have s: "sorted_wrt P xs" by simp
    from "3.IH"(2) [OF s 2] show ?thesis .
  qed
qed

lemma combinations_complete:
  fixes xs :: "nat list"
  assumes "sorted_wrt (>) xs" and "sorted_wrt (>) ks" and "set ks \<subseteq> set xs"
  shows "ks \<in> set (combinations xs (length ks))"
  using assms
proof (induction xs arbitrary: ks)
  case Nil
  then show ?case by simp
next
  case (Cons x xs)
  show ?case
  proof (cases ks)
    case Nil
    then show ?thesis by simp
  next
    case (Cons k ks')
    from Cons.prems(1) have sx: "sorted_wrt (>) xs" and gx: "\<forall>y \<in> set xs. y < x" by simp_all
    from Cons.prems(2) Cons have sk: "sorted_wrt (>) ks'" and gk: "\<forall>y \<in> set ks'. y < k"
      by simp_all
    show ?thesis
    proof (cases "k = x")
      case True
      from gk True Cons.prems(3) Cons have "set ks' \<subseteq> set xs" by auto
      from Cons.IH [OF sx sk this] have "ks' \<in> set (combinations xs (length ks'))" .
      with True Cons show ?thesis by simp
    next
      case False
      with Cons.prems(3) Cons have kx: "k \<in> set xs" by auto
      with gx have "k < x" by blast
      with gk have "x \<notin> set ks" using Cons by auto
      with Cons.prems(3) have "set ks \<subseteq> set xs" by auto
      from Cons.IH [OF sx Cons.prems(2) this] have "ks \<in> set (combinations xs (length ks))" .
      with Cons show ?thesis by simp
    qed
  qed
qed

lemma distinct_combinations: "distinct xs \<Longrightarrow> distinct (combinations xs n)"
proof (induction xs n rule: combinations.induct)
  case (1 xs)
  show ?case by simp
next
  case (2 r)
  show ?case by simp
next
  case (3 x xs r)
  from "3.prems" have d: "distinct xs" and x: "x \<notin> set xs" by simp_all
  have a: "distinct (map ((#) x) (combinations xs r))"
    using "3.IH"(1) [OF d] by (simp add: distinct_map inj_on_def)
  have b: "distinct (combinations xs (Suc r))" by (rule "3.IH"(2) [OF d])
  have c: "set (map ((#) x) (combinations xs r)) \<inter> set (combinations xs (Suc r)) = {}"
  proof -
    have "ks \<in> set (combinations xs (Suc r)) \<Longrightarrow> ks \<notin> (#) x ` set (combinations xs r)" for ks
      using combinations_subset [of ks xs "Suc r"] x by auto
    then show ?thesis by auto
  qed
  from a b c show ?case by simp
qed

section \<open>The passes as assignment loops\<close>

lemma pass_flat:
  assumes "\<And>x s. x \<in> set xs \<Longrightarrow>
             outer x s = for_each (h x) (\<lambda>y. set_rank (mprod (hand x y))) s"
  shows "for_each xs outer (d, r) =
     Inr (assigned (map mprod (concat (map (\<lambda>x. map (hand x) (h x)) xs))) r d,
          r + int (length (concat (map (\<lambda>x. map (hand x) (h x)) xs))))"
proof -
  let ?params = "concat (map (\<lambda>x. map (Pair x) (h x)) xs)"
  have m: "map (\<lambda>(x, y). hand x y) ?params = concat (map (\<lambda>x. map (hand x) (h x)) xs)"
    by (simp add: map_concat comp_def)
  have "for_each xs outer (d, r) =
      for_each xs (\<lambda>x. for_each (h x) (\<lambda>y. set_rank (mprod (hand x y)))) (d, r)"
    by (rule for_each_cong) (rule assms)
  also have "\<dots> = for_each ?params (\<lambda>(x, y). set_rank (mprod (hand x y))) (d, r)"
    by (rule for_each_nested)
  also have "\<dots> = for_each ?params (\<lambda>p. set_rank (mprod ((\<lambda>(x, y). hand x y) p))) (d, r)"
    by (simp add: case_prod_unfold)
  also have "\<dots> = Inr (assigned (map (\<lambda>p. mprod ((\<lambda>(x, y). hand x y) p)) ?params) r d,
      r + int (length ?params))"
    by (rule set_rank_loop_map)
  also have "map (\<lambda>p. mprod ((\<lambda>(x, y). hand x y) p)) ?params
      = map mprod (map (\<lambda>(x, y). hand x y) ?params)"
    by simp
  also have "length ?params = length (map (\<lambda>(x, y). hand x y) ?params)" by simp
  finally show ?thesis unfolding m .
qed

lemma list2: "length ks = 2 \<Longrightarrow> \<exists>a b. ks = [a, b]"
  by (cases ks; simp) (metis Suc_length_conv length_0_conv)

lemma list3: "length ks = 3 \<Longrightarrow> \<exists>a b c. ks = [a, b, c]"
  by (cases ks; simp add: eval_nat_numeral) (metis Suc_length_conv length_0_conv)

lemma three_of_a_kind_pass_flat:
  "three_of_a_kind_pass d =
     Inr (assigned (map mprod trips_hands) 1610 d, 1610 + int (length trips_hands))"
proof -
  have "for_each backwards_ranks
       (\<lambda>r s. and_then (list_remove r backwards_ranks)
          (\<lambda>kickers. for_each (combinations kickers 2)
             (\<lambda>kickers s.
                case kickers of
                  [c1, c2] \<Rightarrow> set_rank (PRIMES ! r ^ 3 * PRIMES ! c1 * PRIMES ! c2) s
                | _ \<Rightarrow> Inl ValueError) s))
       (d, r0) =
     Inr (assigned (map mprod trips_hands) r0 d, r0 + int (length trips_hands))" for r0
    unfolding trips_hands_def
  proof (rule pass_flat)
    fix r :: nat and s :: "(int \<rightharpoonup> int) \<times> int"
    assume r: "r \<in> set backwards_ranks"
    have "for_each (combinations (remove1 r backwards_ranks) 2)
            (\<lambda>kickers s.
                case kickers of
                  [c1, c2] \<Rightarrow> set_rank (PRIMES ! r ^ 3 * PRIMES ! c1 * PRIMES ! c2) s
                | _ \<Rightarrow> Inl ValueError) s =
          for_each (combinations (remove1 r backwards_ranks) 2)
            (\<lambda>y. set_rank (mprod (r # r # r # y))) s"
    proof (rule for_each_cong)
      fix ks :: "nat list" and t :: "(int \<rightharpoonup> int) \<times> int"
      assume "ks \<in> set (combinations (remove1 r backwards_ranks) 2)"
      then have "length ks = 2" by (rule combinations_length_elem)
      then obtain a b where "ks = [a, b]" using list2 by blast
      then show "(case ks of
                  [c1, c2] \<Rightarrow> set_rank (PRIMES ! r ^ 3 * PRIMES ! c1 * PRIMES ! c2) t
                | _ \<Rightarrow> Inl ValueError) = set_rank (mprod (r # r # r # ks)) t"
        by (simp add: power3_eq_cube mult.assoc)
    qed
    with r show "and_then (list_remove r backwards_ranks)
            (\<lambda>kickers.
                for_each (combinations kickers 2)
                 (\<lambda>kickers s.
                     case kickers of
                       [c1, c2] \<Rightarrow> set_rank (PRIMES ! r ^ 3 * PRIMES ! c1 * PRIMES ! c2) s
                     | _ \<Rightarrow> Inl ValueError) s) =
          for_each (combinations (remove1 r backwards_ranks) 2)
            (\<lambda>y. set_rank (mprod (r # r # r # y))) s"
      by (simp add: list_remove_in)
  qed
  from this [of "MAX_STRAIGHT + 1"] show ?thesis
    by (simp add: three_of_a_kind_pass_def MAX_STRAIGHT_def)
qed

lemma pair_pass_flat:
  "pair_pass d = Inr (assigned (map mprod pair_hands) 3326 d, 3326 + int (length pair_hands))"
proof -
  have "for_each backwards_ranks
       (\<lambda>pairrank s. and_then (list_remove pairrank backwards_ranks)
          (\<lambda>kickers. for_each (combinations kickers 3)
             (\<lambda>kickers s.
                case kickers of
                  [k1, k2, k3] \<Rightarrow>
                    set_rank (PRIMES ! pairrank ^ 2 * PRIMES ! k1
                                * PRIMES ! k2 * PRIMES ! k3) s
                | _ \<Rightarrow> Inl ValueError) s))
       (d, r0) =
     Inr (assigned (map mprod pair_hands) r0 d, r0 + int (length pair_hands))" for r0
    unfolding pair_hands_def
  proof (rule pass_flat)
    fix p :: nat and s :: "(int \<rightharpoonup> int) \<times> int"
    assume p: "p \<in> set backwards_ranks"
    have "for_each (combinations (remove1 p backwards_ranks) 3)
            (\<lambda>kickers s.
                case kickers of
                  [k1, k2, k3] \<Rightarrow>
                    set_rank (PRIMES ! p ^ 2 * PRIMES ! k1 * PRIMES ! k2 * PRIMES ! k3) s
                | _ \<Rightarrow> Inl ValueError) s =
          for_each (combinations (remove1 p backwards_ranks) 3)
            (\<lambda>y. set_rank (mprod (p # p # y))) s"
    proof (rule for_each_cong)
      fix ks :: "nat list" and t :: "(int \<rightharpoonup> int) \<times> int"
      assume "ks \<in> set (combinations (remove1 p backwards_ranks) 3)"
      then have "length ks = 3" by (rule combinations_length_elem)
      then obtain a b c where "ks = [a, b, c]" using list3 by blast
      then show "(case ks of
                  [k1, k2, k3] \<Rightarrow>
                    set_rank (PRIMES ! p ^ 2 * PRIMES ! k1 * PRIMES ! k2 * PRIMES ! k3) t
                | _ \<Rightarrow> Inl ValueError) = set_rank (mprod (p # p # ks)) t"
        by (simp add: power2_eq_square mult.assoc)
    qed
    with p show "and_then (list_remove p backwards_ranks)
            (\<lambda>kickers.
                for_each (combinations kickers 3)
                 (\<lambda>kickers s.
                     case kickers of
                       [k1, k2, k3] \<Rightarrow>
                         set_rank (PRIMES ! p ^ 2 * PRIMES ! k1 * PRIMES ! k2 * PRIMES ! k3) s
                     | _ \<Rightarrow> Inl ValueError) s) =
          for_each (combinations (remove1 p backwards_ranks) 3)
            (\<lambda>y. set_rank (mprod (p # p # y))) s"
      by (simp add: list_remove_in)
  qed
  from this [of "MAX_TWO_PAIR + 1"] show ?thesis
    by (simp add: pair_pass_def MAX_TWO_PAIR_def)
qed

lemma two_pair_pass_flat:
  "two_pair_pass d =
     Inr (assigned (map mprod two_pair_hands) 2468 d, 2468 + int (length two_pair_hands))"
proof -
  have "for_each (combinations backwards_ranks 2)
       (\<lambda>tp s.
          case tp of
            [pair1, pair2] \<Rightarrow>
              and_then (list_remove pair1 backwards_ranks)
                (\<lambda>kickers. and_then (list_remove pair2 kickers)
                (\<lambda>kickers. for_each kickers
                   (\<lambda>kicker. set_rank
                      (PRIMES ! pair1 ^ 2 * PRIMES ! pair2 ^ 2 * PRIMES ! kicker)) s))
          | _ \<Rightarrow> Inl ValueError)
       (d, r0) =
     Inr (assigned (map mprod two_pair_hands) r0 d, r0 + int (length two_pair_hands))" for r0
    unfolding two_pair_hands_def
  proof (rule pass_flat)
    fix tp :: "nat list" and s :: "(int \<rightharpoonup> int) \<times> int"
    assume tp: "tp \<in> set (combinations backwards_ranks 2)"
    then have "length tp = 2" by (rule combinations_length_elem)
    then obtain a b where ab: "tp = [a, b]" using list2 by blast
    from combinations_subset [OF tp] ab have a: "a \<in> set backwards_ranks"
      and b: "b \<in> set backwards_ranks" by simp_all
    from combinations_sorted [OF _ tp, of "(>)"] ab have "b < a"
      by (simp add: backwards_ranks_def)
    with b have b': "b \<in> set (remove1 a backwards_ranks)" by simp
    have k: "PRIMES ! a ^ 2 * PRIMES ! b ^ 2 * PRIMES ! k = mprod [a, a, b, b, k]" for k
      by (simp add: power2_eq_square mult.assoc)
    show "(case tp of
            [pair1, pair2] \<Rightarrow>
              and_then (list_remove pair1 backwards_ranks)
                (\<lambda>kickers. and_then (list_remove pair2 kickers)
                (\<lambda>kickers. for_each kickers
                   (\<lambda>kicker. set_rank
                      (PRIMES ! pair1 ^ 2 * PRIMES ! pair2 ^ 2 * PRIMES ! kicker)) s))
          | _ \<Rightarrow> Inl ValueError) =
        for_each (remove1 (tp ! 1) (remove1 (tp ! 0) backwards_ranks))
          (\<lambda>y. set_rank (mprod [tp ! 0, tp ! 0, tp ! 1, tp ! 1, y])) s"
      using a b' by (simp add: ab list_remove_in k)
  qed
  from this [of "MAX_THREE_OF_A_KIND + 1"] show ?thesis
    by (simp add: two_pair_pass_def MAX_THREE_OF_A_KIND_def)
qed

section \<open>Sizes of the passes\<close>

lemma length_backwards_ranks: "length backwards_ranks = 13"
  by (simp add: backwards_ranks_def)

lemma distinct_backwards_ranks: "distinct backwards_ranks"
  by (simp add: backwards_ranks_def)

lemma sorted_backwards_ranks: "sorted_wrt (>) backwards_ranks"
  by (simp add: backwards_ranks_def)

lemma length_remove1_ranks:
  "r \<in> set backwards_ranks \<Longrightarrow> length (remove1 r backwards_ranks) = 12"
  by (simp add: length_remove1 length_backwards_ranks)

lemma choose_12_2: "(12::nat) choose 2 = 66"
  by (simp add: choose_two)

lemma choose_13_2: "(13::nat) choose 2 = 78"
  by (simp add: choose_two)

lemma choose_12_3: "(12::nat) choose 3 = 220"
  by (simp add: eval_nat_numeral binomial_Suc_Suc)

lemma length_concat_const:
  "(\<And>x. x \<in> set xs \<Longrightarrow> length (f x) = c) \<Longrightarrow> length (concat (map f xs)) = length xs * c"
  by (induction xs) simp_all

lemma length_quad_hands: "length quad_hands = 156"
  by (simp add: quad_hands_def length_pair_params)

lemma length_full_house_hands: "length full_house_hands = 156"
  by (simp add: full_house_hands_def length_pair_params)

lemma length_trips_hands: "length trips_hands = 858"
proof -
  have "length trips_hands = length backwards_ranks * 66"
    unfolding trips_hands_def
    by (rule length_concat_const)
       (simp add: length_combinations length_remove1_ranks choose_12_2)
  then show ?thesis by (simp add: length_backwards_ranks)
qed

lemma length_pair_hands: "length pair_hands = 2860"
proof -
  have "length pair_hands = length backwards_ranks * 220"
    unfolding pair_hands_def
    by (rule length_concat_const)
       (simp add: length_combinations length_remove1_ranks choose_12_3)
  then show ?thesis by (simp add: length_backwards_ranks)
qed

lemma length_two_pair_hands: "length two_pair_hands = 858"
proof -
  have "length two_pair_hands = length (combinations backwards_ranks 2) * 11"
    unfolding two_pair_hands_def
  proof (rule length_concat_const)
    fix tp assume tp: "tp \<in> set (combinations backwards_ranks 2)"
    then have "length tp = 2" by (rule combinations_length_elem)
    then obtain a b where ab: "tp = [a, b]" using list2 by blast
    from combinations_subset [OF tp] ab have a: "a \<in> set backwards_ranks"
      and b: "b \<in> set backwards_ranks" by simp_all
    from combinations_sorted [OF _ tp, of "(>)"] ab have "b < a"
      by (simp add: backwards_ranks_def)
    with b have "b \<in> set (remove1 a backwards_ranks)" by simp
    then have "length (remove1 b (remove1 a backwards_ranks)) = 11"
      using a by (simp add: length_remove1 length_backwards_ranks)
    then show "length (map (\<lambda>k. [tp ! 0, tp ! 0, tp ! 1, tp ! 1, k])
                   (remove1 (tp ! 1) (remove1 (tp ! 0) backwards_ranks))) = 11"
      by (simp add: ab)
  qed
  then show ?thesis
    by (simp add: length_combinations length_backwards_ranks choose_13_2)
qed

lemma length_straight_hands: "length straight_hands = 10"
  by (simp add: straight_hands_def straight_flushes_def)

lemma length_highcard_hands: "length highcard_hands = 1277"
  by (simp add: highcard_hands_def flush_list_length)

section \<open>Hands with the same ranks\<close>

lemma mset_multiple_inj:
  assumes e: "mset (replicate m r @ ks) = mset (replicate m r' @ ks')"
    and d: "distinct ks" "distinct ks'" and n: "r \<notin> set ks" "r' \<notin> set ks'" and m: "2 \<le> m"
  shows "r = r' \<and> mset ks = mset ks'"
proof -
  have r: "r = r'"
  proof (rule ccontr)
    assume ne: "r \<noteq> r'"
    from e have "count (mset (replicate m r @ ks)) r = count (mset (replicate m r' @ ks')) r"
      by simp
    with n ne have "m = count (mset ks') r" by (simp add: count_mset)
    moreover from d(2) have "count (mset ks') r \<le> 1"
      by (simp add: count_mset distinct_count_atmost_1)
    ultimately show False using m by simp
  qed
  with e have "mset ks = mset ks'" by simp
  with r show ?thesis ..
qed

lemma sorted_desc_mset_eq:
  fixes ks :: "nat list"
  assumes "sorted_wrt (>) ks" "sorted_wrt (>) ks'" "mset ks = mset ks'"
  shows "ks = ks'"
proof -
  have "sorted_wrt (<) (rev ks)" "sorted_wrt (<) (rev ks')"
    using assms(1,2) by (simp_all add: sorted_wrt_rev)
  moreover from assms(3) have "set (rev ks) = set (rev ks')" by (metis set_rev set_mset_mset)
  ultimately have "rev ks = rev ks'" by (metis strict_sorted_equal)
  then show ?thesis by simp
qed

lemma sorted_desc_distinct: "sorted_wrt (>) (ks :: nat list) \<Longrightarrow> distinct ks"
  by (induction ks) auto

lemma full_house_inj:
  assumes "mset [i, i, i, p, p] = mset [i', i', i', p', p']" and "i \<noteq> p" and "i' \<noteq> (p'::nat)"
  shows "i = i' \<and> p = p'"
proof -
  from assms(1) have c: "count (mset [i, i, i, p, p]) x = count (mset [i', i', i', p', p']) x" for x
    by simp
  from c [of i] assms(2,3) have i: "i = i'" by (auto split: if_splits)
  from c [of p] assms(2,3) i have "p = p'" by (auto split: if_splits)
  with i show ?thesis ..
qed

lemma two_pair_inj:
  assumes "mset [a, a, b, b, k] = mset [a', a', b', b', k']"
    and "b < a" "b' < (a'::nat)" "k \<noteq> a" "k \<noteq> b" "k' \<noteq> a'" "k' \<noteq> b'"
  shows "a = a' \<and> b = b' \<and> k = k'"
proof -
  from assms(1) have c: "count (mset [a, a, b, b, k]) x = count (mset [a', a', b', b', k']) x" for x
    by simp
  from c [of k] assms(2-) have k: "k = k'" by (auto split: if_splits)
  from c [of a] assms(2-) k have a: "a = a' \<or> a = b'" by (auto split: if_splits)
  from c [of b] assms(2-) k have b: "b = a' \<or> b = b'" by (auto split: if_splits)
  from c [of a'] assms(2-) k have a': "a' = a \<or> a' = b" by (auto split: if_splits)
  from a b a' assms(2,3) have "a = a' \<and> b = b'" by auto
  with k show ?thesis by simp
qed

section \<open>The pairing of a hand\<close>

lemma sum_list_ones: "(\<forall>x \<in> set xs. f x = (1::nat)) \<Longrightarrow> sum_list (map f xs) = length xs"
  by (induction xs) simp_all

lemma pairing_distinct:
  assumes "distinct h"
  shows "pairing h = length h"
proof -
  have "count_list h x = 1" if "x \<in> set h" for x
    using that assms by (metis count_mset distinct_count_atmost_1)
  then show ?thesis unfolding pairing_def by (intro sum_list_ones) blast
qed

lemma pairing_quad: "i \<noteq> k \<Longrightarrow> pairing [i, i, i, i, k] = 17"
  by (auto simp: pairing_def)

lemma pairing_full_house: "i \<noteq> p \<Longrightarrow> pairing [i, i, i, p, p] = 13"
  by (auto simp: pairing_def)

lemma pairing_trips: "a \<noteq> r \<Longrightarrow> b \<noteq> r \<Longrightarrow> a \<noteq> b \<Longrightarrow> pairing [r, r, r, a, b] = 11"
  by (auto simp: pairing_def)

lemma pairing_two_pair:
  "a \<noteq> b \<Longrightarrow> k \<noteq> a \<Longrightarrow> k \<noteq> b \<Longrightarrow> pairing [a, a, b, b, k] = 9"
  by (auto simp: pairing_def)

lemma pairing_pair:
  "distinct [p, a, b, c] \<Longrightarrow> pairing [p, p, a, b, c] = 7"
  by (auto simp: pairing_def)

section \<open>The hands of each pass\<close>

lemma sorted_wrt_remove1: "sorted_wrt P xs \<Longrightarrow> sorted_wrt P (remove1 x xs)"
proof (induction xs)
  case Nil
  then show ?case by simp
next
  case (Cons y ys)
  then show ?case by (auto dest: notin_set_remove1)
qed

lemma set_remove1_ranks: "set (remove1 r backwards_ranks) = {..<13} - {r}"
  by (simp add: set_remove1_eq distinct_backwards_ranks set_backwards_ranks)

lemma kickers_iff:
  "ks \<in> set (combinations (remove1 r backwards_ranks) n) \<longleftrightarrow>
     length ks = n \<and> sorted_wrt (>) ks \<and> set ks \<subseteq> {..<13} - {r}"
proof
  assume a: "ks \<in> set (combinations (remove1 r backwards_ranks) n)"
  have s: "sorted_wrt (>) (remove1 r backwards_ranks)"
    by (rule sorted_wrt_remove1 [OF sorted_backwards_ranks])
  from combinations_length_elem [OF a] combinations_sorted [OF s a] combinations_subset [OF a]
  show "length ks = n \<and> sorted_wrt (>) ks \<and> set ks \<subseteq> {..<13} - {r}"
    by (simp add: set_remove1_ranks)
next
  assume a: "length ks = n \<and> sorted_wrt (>) ks \<and> set ks \<subseteq> {..<13} - {r}"
  have s: "sorted_wrt (>) (remove1 r backwards_ranks)"
    by (rule sorted_wrt_remove1 [OF sorted_backwards_ranks])
  from a have "set ks \<subseteq> set (remove1 r backwards_ranks)" by (simp add: set_remove1_ranks)
  from combinations_complete [OF s _ this] a
  show "ks \<in> set (combinations (remove1 r backwards_ranks) n)" by auto
qed

lemma pairs_iff:
  "tp \<in> set (combinations backwards_ranks 2) \<longleftrightarrow> (\<exists>a b. tp = [a, b] \<and> b < a \<and> a < 13)"
proof
  assume a: "tp \<in> set (combinations backwards_ranks 2)"
  from combinations_length_elem [OF a] obtain x y where xy: "tp = [x, y]" using list2 by blast
  from combinations_sorted [OF sorted_backwards_ranks a] xy have "y < x" by simp
  moreover from combinations_subset [OF a] xy have "x < 13" by (simp add: set_backwards_ranks)
  ultimately show "\<exists>a b. tp = [a, b] \<and> b < a \<and> a < 13" using xy by blast
next
  assume "\<exists>a b. tp = [a, b] \<and> b < a \<and> a < 13"
  then obtain a b where ab: "tp = [a, b]" "b < a" "a < 13" by blast
  then have "sorted_wrt (>) tp" "set tp \<subseteq> set backwards_ranks"
    by (simp_all add: set_backwards_ranks)
  from combinations_complete [OF sorted_backwards_ranks this] ab
  show "tp \<in> set (combinations backwards_ranks 2)" by (simp add: numeral_2_eq_2)
qed

lemma quad_hands_alt:
  "quad_hands = concat (map (\<lambda>i. map (\<lambda>k. [i, i, i, i, k]) (remove1 i backwards_ranks)) backwards_ranks)"
  by (simp add: quad_hands_def pair_params_def map_concat comp_def)

lemma full_house_hands_alt:
  "full_house_hands =
     concat (map (\<lambda>i. map (\<lambda>p. [i, i, i, p, p]) (remove1 i backwards_ranks)) backwards_ranks)"
  by (simp add: full_house_hands_def pair_params_def map_concat comp_def)

lemma quad_hands_iff:
  "h \<in> set quad_hands \<longleftrightarrow> (\<exists>i k. i < 13 \<and> k < 13 \<and> k \<noteq> i \<and> h = [i, i, i, i, k])"
  by (auto simp: quad_hands_alt set_backwards_ranks set_remove1_ranks)

lemma full_house_hands_iff:
  "h \<in> set full_house_hands \<longleftrightarrow> (\<exists>i p. i < 13 \<and> p < 13 \<and> p \<noteq> i \<and> h = [i, i, i, p, p])"
  by (auto simp: full_house_hands_alt set_backwards_ranks set_remove1_ranks)

lemma trips_hands_iff:
  "h \<in> set trips_hands \<longleftrightarrow>
     (\<exists>r a b. r < 13 \<and> a < 13 \<and> b < a \<and> a \<noteq> r \<and> b \<noteq> r \<and> h = [r, r, r, a, b])"
proof
  assume "h \<in> set trips_hands"
  then obtain r ks where r: "r < 13" and ks: "ks \<in> set (combinations (remove1 r backwards_ranks) 2)"
    and h: "h = r # r # r # ks"
    by (auto simp: trips_hands_def set_backwards_ranks)
  from ks have k: "length ks = 2" "sorted_wrt (>) ks" "set ks \<subseteq> {..<13} - {r}"
    by (simp_all add: kickers_iff)
  from k(1) obtain a b where ab: "ks = [a, b]" using list2 by blast
  with k r h show "\<exists>r a b. r < 13 \<and> a < 13 \<and> b < a \<and> a \<noteq> r \<and> b \<noteq> r \<and> h = [r, r, r, a, b]"
    by auto
next
  assume "\<exists>r a b. r < 13 \<and> a < 13 \<and> b < a \<and> a \<noteq> r \<and> b \<noteq> r \<and> h = [r, r, r, a, b]"
  then obtain r a b where f: "r < 13" "a < 13" "b < a" "a \<noteq> r" "b \<noteq> r" "h = [r, r, r, a, b]"
    by blast
  then have "[a, b] \<in> set (combinations (remove1 r backwards_ranks) 2)"
    by (simp add: kickers_iff)
  with f show "h \<in> set trips_hands"
    by (auto simp: trips_hands_def set_backwards_ranks)
qed

lemma pair_hands_iff:
  "h \<in> set pair_hands \<longleftrightarrow>
     (\<exists>p a b c. p < 13 \<and> a < 13 \<and> b < a \<and> c < b \<and> a \<noteq> p \<and> b \<noteq> p \<and> c \<noteq> p
        \<and> h = [p, p, a, b, c])"
proof
  assume "h \<in> set pair_hands"
  then obtain p ks where p: "p < 13" and ks: "ks \<in> set (combinations (remove1 p backwards_ranks) 3)"
    and h: "h = p # p # ks"
    by (auto simp: pair_hands_def set_backwards_ranks)
  from ks have k: "length ks = 3" "sorted_wrt (>) ks" "set ks \<subseteq> {..<13} - {p}"
    by (simp_all add: kickers_iff)
  from k(1) obtain a b c where abc: "ks = [a, b, c]" using list3 by blast
  with k p h show "\<exists>p a b c. p < 13 \<and> a < 13 \<and> b < a \<and> c < b \<and> a \<noteq> p \<and> b \<noteq> p \<and> c \<noteq> p
        \<and> h = [p, p, a, b, c]"
    by auto
next
  assume "\<exists>p a b c. p < 13 \<and> a < 13 \<and> b < a \<and> c < b \<and> a \<noteq> p \<and> b \<noteq> p \<and> c \<noteq> p
        \<and> h = [p, p, a, b, c]"
  then obtain p a b c where f: "p < 13" "a < 13" "b < a" "c < b" "a \<noteq> p" "b \<noteq> p" "c \<noteq> p"
    "h = [p, p, a, b, c]" by blast
  then have "[a, b, c] \<in> set (combinations (remove1 p backwards_ranks) 3)"
    by (simp add: kickers_iff)
  with f show "h \<in> set pair_hands"
    by (auto simp: pair_hands_def set_backwards_ranks)
qed

lemma two_pair_hands_iff:
  "h \<in> set two_pair_hands \<longleftrightarrow>
     (\<exists>a b k. a < 13 \<and> b < a \<and> k < 13 \<and> k \<noteq> a \<and> k \<noteq> b \<and> h = [a, a, b, b, k])"
proof
  assume "h \<in> set two_pair_hands"
  then obtain tp k where tp: "tp \<in> set (combinations backwards_ranks 2)"
    and k: "k \<in> set (remove1 (tp ! 1) (remove1 (tp ! 0) backwards_ranks))"
    and h: "h = [tp ! 0, tp ! 0, tp ! 1, tp ! 1, k]"
    by (auto simp: two_pair_hands_def)
  from tp obtain a b where ab: "tp = [a, b]" "b < a" "a < 13" by (auto simp: pairs_iff)
  have d: "distinct (remove1 a backwards_ranks)"
    by (simp add: distinct_backwards_ranks)
  from k ab have "k \<in> {..<13} - {a} - {b}"
    by (simp add: set_remove1_eq [OF d] set_remove1_ranks)
  with ab h show "\<exists>a b k. a < 13 \<and> b < a \<and> k < 13 \<and> k \<noteq> a \<and> k \<noteq> b \<and> h = [a, a, b, b, k]"
    by auto
next
  assume "\<exists>a b k. a < 13 \<and> b < a \<and> k < 13 \<and> k \<noteq> a \<and> k \<noteq> b \<and> h = [a, a, b, b, k]"
  then obtain a b k where f: "a < 13" "b < a" "k < 13" "k \<noteq> a" "k \<noteq> b" "h = [a, a, b, b, k]"
    by blast
  have d: "distinct (remove1 a backwards_ranks)"
    by (simp add: distinct_backwards_ranks)
  from f have tp: "[a, b] \<in> set (combinations backwards_ranks 2)" by (simp add: pairs_iff)
  from f have "k \<in> set (remove1 ([a, b] ! 1) (remove1 ([a, b] ! 0) backwards_ranks))"
    by (simp add: set_remove1_eq [OF d] set_remove1_ranks)
  with tp f(6) show "h \<in> set two_pair_hands"
    unfolding two_pair_hands_def by (auto intro!: bexI [of _ "[a, b]"])
qed

section \<open>No two hands of a pass have the same ranks\<close>

lemma distinct_concat_map:
  assumes "distinct xs" and "\<And>x. x \<in> set xs \<Longrightarrow> distinct (h x)"
    and "\<And>x y x' y'. x \<in> set xs \<Longrightarrow> y \<in> set (h x) \<Longrightarrow> x' \<in> set xs \<Longrightarrow> y' \<in> set (h x')
           \<Longrightarrow> F x y = F x' y' \<Longrightarrow> x = x' \<and> y = y'"
  shows "distinct (concat (map (\<lambda>x. map (F x) (h x)) xs))"
  using assms
proof (induction xs)
  case Nil
  show ?case by simp
next
  case (Cons x xs)
  have a: "distinct (map (F x) (h x))"
  proof -
    have "inj_on (F x) (set (h x))"
      by (rule inj_onI) (use Cons.prems(3) [of x _ x] in auto)
    with Cons.prems(2) [of x] show ?thesis by (simp add: distinct_map)
  qed
  have b: "distinct (concat (map (\<lambda>x. map (F x) (h x)) xs))"
  proof (rule Cons.IH)
    from Cons.prems(1) show "distinct xs" by simp
  next
    fix z assume "z \<in> set xs"
    then show "distinct (h z)" by (intro Cons.prems(2)) simp
  next
    fix z y z' y'
    assume "z \<in> set xs" "y \<in> set (h z)" "z' \<in> set xs" "y' \<in> set (h z')" "F z y = F z' y'"
    then show "z = z' \<and> y = y'" by (intro Cons.prems(3)) simp_all
  qed
  have c: "set (map (F x) (h x)) \<inter> set (concat (map (\<lambda>x. map (F x) (h x)) xs)) = {}"
  proof (rule ccontr)
    assume "\<not> ?thesis"
    then obtain y x' y' where "y \<in> set (h x)" "x' \<in> set xs" "y' \<in> set (h x')" "F x y = F x' y'"
      by auto
    with Cons.prems(3) [of x y x' y'] have "x = x'" by simp
    with \<open>x' \<in> set xs\<close> Cons.prems(1) show False by simp
  qed
  from a b c show ?case by simp
qed

lemma distinct_quad_hands: "distinct (map mset quad_hands)"
proof -
  have "map mset quad_hands =
      concat (map (\<lambda>i. map (\<lambda>k. mset [i, i, i, i, k]) (remove1 i backwards_ranks)) backwards_ranks)"
    by (simp add: quad_hands_alt map_concat comp_def)
  moreover have "distinct \<dots>"
  proof (rule distinct_concat_map)
    show "distinct backwards_ranks" by (rule distinct_backwards_ranks)
  next
    fix i show "distinct (remove1 i backwards_ranks)" by (simp add: distinct_backwards_ranks)
  next
    fix i k i' k'
    assume "k \<in> set (remove1 i backwards_ranks)" "k' \<in> set (remove1 i' backwards_ranks)"
      and e: "mset [i, i, i, i, k] = mset [i', i', i', i', k']"
    then have n: "k \<noteq> i" "k' \<noteq> i'" by (simp_all add: set_remove1_ranks)
    from e have "mset (replicate 4 i @ [k]) = mset (replicate 4 i' @ [k'])"
      by (simp add: eval_nat_numeral)
    from mset_multiple_inj [OF this] n show "i = i' \<and> k = k'" by auto
  qed
  ultimately show ?thesis by simp
qed

lemma distinct_full_house_hands: "distinct (map mset full_house_hands)"
proof -
  have "map mset full_house_hands =
      concat (map (\<lambda>i. map (\<lambda>p. mset [i, i, i, p, p]) (remove1 i backwards_ranks)) backwards_ranks)"
    by (simp add: full_house_hands_alt map_concat comp_def)
  moreover have "distinct \<dots>"
  proof (rule distinct_concat_map)
    show "distinct backwards_ranks" by (rule distinct_backwards_ranks)
  next
    fix i show "distinct (remove1 i backwards_ranks)" by (simp add: distinct_backwards_ranks)
  next
    fix i p i' p'
    assume "p \<in> set (remove1 i backwards_ranks)" "p' \<in> set (remove1 i' backwards_ranks)"
      and e: "mset [i, i, i, p, p] = mset [i', i', i', p', p']"
    then have n: "i \<noteq> p" "i' \<noteq> p'" by (auto simp: set_remove1_ranks)
    from full_house_inj [OF e n] show "i = i' \<and> p = p'" .
  qed
  ultimately show ?thesis by simp
qed

lemma distinct_kicker_hands:
  assumes "2 \<le> m"
  shows "distinct (map mset (concat (map (\<lambda>r. map (\<lambda>ks. replicate m r @ ks)
            (combinations (remove1 r backwards_ranks) n)) backwards_ranks)))"
proof -
  have "map mset (concat (map (\<lambda>r. map (\<lambda>ks. replicate m r @ ks)
            (combinations (remove1 r backwards_ranks) n)) backwards_ranks)) =
      concat (map (\<lambda>r. map (\<lambda>ks. mset (replicate m r @ ks))
            (combinations (remove1 r backwards_ranks) n)) backwards_ranks)"
    by (simp add: map_concat comp_def)
  moreover have "distinct \<dots>"
  proof (rule distinct_concat_map)
    show "distinct backwards_ranks" by (rule distinct_backwards_ranks)
  next
    fix r show "distinct (combinations (remove1 r backwards_ranks) n)"
      by (simp add: distinct_combinations distinct_backwards_ranks)
  next
    fix r ks r' ks'
    assume "ks \<in> set (combinations (remove1 r backwards_ranks) n)"
      "ks' \<in> set (combinations (remove1 r' backwards_ranks) n)"
      and e: "mset (replicate m r @ ks) = mset (replicate m r' @ ks')"
    then have k: "sorted_wrt (>) ks" "sorted_wrt (>) ks'" "r \<notin> set ks" "r' \<notin> set ks'"
      by (auto simp: kickers_iff)
    from mset_multiple_inj [OF e sorted_desc_distinct [OF k(1)] sorted_desc_distinct [OF k(2)]
        k(3,4) assms]
    have "r = r'" "mset ks = mset ks'" by simp_all
    with sorted_desc_mset_eq [OF k(1,2)] show "r = r' \<and> ks = ks'" by simp
  qed
  ultimately show ?thesis by simp
qed

lemma distinct_trips_hands: "distinct (map mset trips_hands)"
  using distinct_kicker_hands [of 3 2] by (simp add: trips_hands_def eval_nat_numeral)

lemma distinct_pair_hands: "distinct (map mset pair_hands)"
  using distinct_kicker_hands [of 2 3] by (simp add: pair_hands_def eval_nat_numeral)

lemma distinct_two_pair_hands: "distinct (map mset two_pair_hands)"
proof -
  let ?h = "\<lambda>tp. remove1 (tp ! 1) (remove1 (tp ! 0) backwards_ranks)"
  have "map mset two_pair_hands =
      concat (map (\<lambda>tp. map (\<lambda>k. mset [tp ! 0, tp ! 0, tp ! 1, tp ! 1, k]) (?h tp))
        (combinations backwards_ranks 2))"
    by (simp add: two_pair_hands_def map_concat comp_def)
  moreover have "distinct \<dots>"
  proof (rule distinct_concat_map)
    show "distinct (combinations backwards_ranks 2)"
      by (simp add: distinct_combinations distinct_backwards_ranks)
  next
    fix tp show "distinct (?h tp)" by (simp add: distinct_backwards_ranks)
  next
    fix tp k tp' k'
    assume tp: "tp \<in> set (combinations backwards_ranks 2)"
      and k: "k \<in> set (?h tp)"
      and tp': "tp' \<in> set (combinations backwards_ranks 2)"
      and k': "k' \<in> set (?h tp')"
      and e: "mset [tp ! 0, tp ! 0, tp ! 1, tp ! 1, k] = mset [tp' ! 0, tp' ! 0, tp' ! 1, tp' ! 1, k']"
    from tp obtain a b where ab: "tp = [a, b]" "b < a" by (auto simp: pairs_iff)
    from tp' obtain a' b' where ab': "tp' = [a', b']" "b' < a'" by (auto simp: pairs_iff)
    have d: "distinct (remove1 x backwards_ranks)" for x
      by (simp add: distinct_backwards_ranks)
    from k ab have n: "k \<noteq> a" "k \<noteq> b"
      by (auto simp: set_remove1_eq [OF d] set_remove1_ranks)
    from k' ab' have n': "k' \<noteq> a'" "k' \<noteq> b'"
      by (auto simp: set_remove1_eq [OF d] set_remove1_ranks)
    from e ab ab' have "mset [a, a, b, b, k] = mset [a', a', b', b', k']" by simp
    from two_pair_inj [OF this ab(2) ab'(2) n n'] ab ab' show "tp = tp' \<and> k = k'" by simp
  qed
  ultimately show ?thesis by simp
qed

section \<open>Rank patterns\<close>

lemma set_ranks_of: "set (ranks_of x) = {i. i < 13 \<and> bit x i}"
  by (auto simp: ranks_of_def)

lemma distinct_ranks_of: "distinct (ranks_of x)"
  by (simp add: ranks_of_def)

lemma bit_below_13:
  assumes "0 \<le> x" "x < 8192" "bit (x::int) i"
  shows "i < 13"
proof -
  from assms(1,2) have t: "take_bit 13 x = x" by (simp add: take_bit_int_eq_self)
  from assms(3) have "bit (take_bit 13 x) i" unfolding t .
  then show ?thesis by (simp only: bit_take_bit_iff)
qed

lemma ranks_of_inj:
  assumes "0 \<le> x" "x < 8192" "0 \<le> y" "y < 8192" "mset (ranks_of x) = mset (ranks_of y)"
  shows "x = y"
proof (rule bit_eqI)
  fix i
  from assms(5) have "set (ranks_of x) = set (ranks_of y)" by (metis set_mset_mset)
  then have e: "(i < 13 \<and> bit x i) = (i < 13 \<and> bit y i)" by (auto simp: set_ranks_of)
  show "bit x i = bit y i"
    using e bit_below_13 [OF assms(1,2), of i] bit_below_13 [OF assms(3,4), of i] by blast
qed

lemma length_ranks_of:
  assumes "0 \<le> x" "x < 8192"
  shows "length (ranks_of x) = popcount x"
proof -
  have "length (ranks_of x) = card (set (ranks_of x))"
    by (simp add: distinct_card distinct_ranks_of)
  also have "set (ranks_of x) = {i. bit x i}"
    using bit_below_13 [OF assms] by (auto simp: set_ranks_of)
  also have "card {i. bit x i} = popcount x" using popcount_card [OF assms(1)] by simp
  finally show ?thesis .
qed

lemma ranks_of_valid: "i \<in> set (ranks_of x) \<Longrightarrow> i < 13"
  by (simp add: set_ranks_of)

lemma flush_list_iff:
  "x \<in> set flush_list \<longleftrightarrow> popcount x = 5 \<and> 31 < x \<and> x \<le> 7936 \<and> x \<notin> set straight_flushes"
  by (auto simp: flush_list_def five_bit_words_iff)

lemma distinct_flush_list: "distinct flush_list"
  using five_bit_words_sorted by (simp add: flush_list_def strict_sorted_iff)

lemma distinct_straight_flushes: "distinct straight_flushes"
  by (simp add: straight_flushes_def)

lemma pattern_props:
  assumes "x \<in> set (straight_flushes @ flush_list)"
  shows "0 \<le> x \<and> x < 8192 \<and> popcount x = 5"
proof (cases "x \<in> set straight_flushes")
  case True
  with straight_flush_popcounts have "popcount x = 5" by blast
  moreover from True have "0 \<le> x \<and> x < 8192" by (auto simp: straight_flushes_def)
  ultimately show ?thesis by simp
next
  case False
  with assms have "x \<in> set flush_list" by simp
  then show ?thesis by (simp add: flush_list_iff)
qed

lemma distinct_patterns: "distinct (straight_flushes @ flush_list)"
  by (auto simp: distinct_straight_flushes distinct_flush_list flush_list_iff)

lemma distinct_pattern_hands: "distinct (map mset (straight_hands @ highcard_hands))"
proof -
  have "map mset (straight_hands @ highcard_hands)
      = map (\<lambda>x. mset (ranks_of x)) (straight_flushes @ flush_list)"
    by (simp add: straight_hands_def highcard_hands_def)
  moreover have "distinct \<dots>"
    unfolding distinct_map
  proof
    show "distinct (straight_flushes @ flush_list)" by (rule distinct_patterns)
    show "inj_on (\<lambda>x. mset (ranks_of x)) (set (straight_flushes @ flush_list))"
    proof (rule inj_onI)
      fix x y
      assume x: "x \<in> set (straight_flushes @ flush_list)"
        and y: "y \<in> set (straight_flushes @ flush_list)"
        and e: "mset (ranks_of x) = mset (ranks_of y)"
      from pattern_props [OF x] pattern_props [OF y]
      have "0 \<le> x" "x < 8192" "0 \<le> y" "y < 8192" by simp_all
      then show "x = y" using e by (rule ranks_of_inj)
    qed
  qed
  ultimately show ?thesis by simp
qed

lemma pattern_hand_props:
  assumes "h \<in> set (straight_hands @ highcard_hands)"
  shows "distinct h \<and> length h = 5 \<and> (\<forall>i \<in> set h. i < 13)"
proof -
  from assms obtain x where x: "x \<in> set (straight_flushes @ flush_list)" and h: "h = ranks_of x"
    by (auto simp: straight_hands_def highcard_hands_def)
  from pattern_props [OF x] have "length (ranks_of x) = 5" by (simp add: length_ranks_of)
  with h show ?thesis by (simp add: distinct_ranks_of ranks_of_valid)
qed

section \<open>The pairing of the hands of each pass\<close>

lemma pattern_hands_pairing: "h \<in> set (straight_hands @ highcard_hands) \<Longrightarrow> pairing h = 5"
  using pattern_hand_props [of h] by (simp add: pairing_distinct)

lemma quad_hands_props:
  assumes "h \<in> set quad_hands"
  shows "pairing h = 17 \<and> length h = 5 \<and> (\<forall>i \<in> set h. i < 13)"
proof -
  from assms obtain i k where "i < 13" "k < 13" "k \<noteq> i" and h: "h = [i, i, i, i, k]"
    unfolding quad_hands_iff by blast
  then show ?thesis using pairing_quad [of i k] by simp
qed

lemma full_house_hands_props:
  assumes "h \<in> set full_house_hands"
  shows "pairing h = 13 \<and> length h = 5 \<and> (\<forall>i \<in> set h. i < 13)"
proof -
  from assms obtain i p where "i < 13" "p < 13" "p \<noteq> i" and h: "h = [i, i, i, p, p]"
    unfolding full_house_hands_iff by blast
  then show ?thesis using pairing_full_house [of i p] by simp
qed

lemma trips_hands_props:
  assumes "h \<in> set trips_hands"
  shows "pairing h = 11 \<and> length h = 5 \<and> (\<forall>i \<in> set h. i < 13)"
proof -
  from assms obtain r a b where "r < 13" "a < 13" "b < a" "a \<noteq> r" "b \<noteq> r"
    and h: "h = [r, r, r, a, b]"
    unfolding trips_hands_iff by blast
  then show ?thesis using pairing_trips [of a r b] by simp
qed

lemma two_pair_hands_props:
  assumes "h \<in> set two_pair_hands"
  shows "pairing h = 9 \<and> length h = 5 \<and> (\<forall>i \<in> set h. i < 13)"
proof -
  from assms obtain a b k where "a < 13" "b < a" "k < 13" "k \<noteq> a" "k \<noteq> b"
    and h: "h = [a, a, b, b, k]"
    unfolding two_pair_hands_iff by blast
  then show ?thesis using pairing_two_pair [of a b k] by simp
qed

lemma pair_hands_props:
  assumes "h \<in> set pair_hands"
  shows "pairing h = 7 \<and> length h = 5 \<and> (\<forall>i \<in> set h. i < 13)"
proof -
  from assms obtain p a b c where "p < 13" "a < 13" "b < a" "c < b" "a \<noteq> p" "b \<noteq> p" "c \<noteq> p"
    and h: "h = [p, p, a, b, c]"
    unfolding pair_hands_iff by blast
  then show ?thesis using pairing_pair [of p a b c] by simp
qed

section \<open>The table that build returns\<close>

lemma build_eq:
  "build = Inr \<lparr>flush = layers flush_layers Map.empty,
                unsuited = layers unsuited_layers Map.empty\<rparr>"
proof -
  have m: "map (\<lambda>x. mprod (ranks_of x)) ps = map mprod (map ranks_of ps)" for ps
    by simp
  have f: "build_flushes \<lparr>flush = Map.empty, unsuited = Map.empty\<rparr>
      = Inr \<lparr>flush = assigned (map mprod highcard_hands) 323
                        (assigned (map mprod straight_hands) 1 Map.empty),
              unsuited = assigned (map mprod highcard_hands) 6186
                        (assigned (map mprod straight_hands) 1600 Map.empty)\<rparr>"
    unfolding build_flushes_def build_straight_and_highcards_def flush_patterns_eq
    by (simp add: rankbits_loop_eq m straight_hands_def [symmetric] highcard_hands_def [symmetric]
        MAX_FULL_HOUSE_def MAX_FLUSH_def MAX_PAIR_def del: map_map)
  show ?thesis
    unfolding build_def f
    by (simp add: build_multiples_def four_of_a_kind_pass_eq full_house_pass_eq
        three_of_a_kind_pass_flat two_pair_pass_flat pair_pass_flat
        flush_layers_def unsuited_layers_def)
qed

section \<open>Looking up a key\<close>

lemma layers_notin: "K \<notin> set (concat (map fst ls)) \<Longrightarrow> layers ls d K = d K"
proof (induction ls arbitrary: d)
  case Nil
  show ?case by simp
next
  case (Cons l ls)
  obtain ks r where l: "l = (ks, r)" by (cases l)
  from Cons.prems l have a: "K \<notin> set ks" and b: "K \<notin> set (concat (map fst ls))" by auto
  from Cons.IH [OF b] assigned_notin [OF a] l show ?case by simp
qed

lemma layers_nth:
  assumes "distinct (concat (map fst ls))" and "(ks, r) \<in> set ls" and "m < length ks"
  shows "layers ls d (ks ! m) = Some (r + int m)"
  using assms
proof (induction ls arbitrary: d)
  case Nil
  then show ?case by simp
next
  case (Cons l ls)
  obtain ks' r' where l: "l = (ks', r')" by (cases l)
  from Cons.prems(1) l have d1: "distinct ks'" and d2: "distinct (concat (map fst ls))"
    and d3: "set ks' \<inter> set (concat (map fst ls)) = {}" by auto
  show ?case
  proof (cases "(ks, r) \<in> set ls")
    case True
    from Cons.IH [OF d2 True Cons.prems(3)] l show ?thesis by simp
  next
    case False
    with Cons.prems(2) l have e: "ks' = ks" "r' = r" by auto
    from Cons.prems(3) have "ks ! m \<in> set ks" by simp
    with d3 e have "ks ! m \<notin> set (concat (map fst ls))" by auto
    from layers_notin [OF this] assigned_nth [OF d1 [unfolded e] Cons.prems(3)] l e
    show ?thesis by simp
  qed
qed

lemma layers_dom: "dom (layers ls d) = dom d \<union> set (concat (map fst ls))"
proof (induction ls arbitrary: d)
  case Nil
  show ?case by simp
next
  case (Cons l ls)
  obtain ks r where l: "l = (ks, r)" by (cases l)
  show ?case unfolding l by (simp add: Cons.IH assigned_dom Un_assoc)
qed

lemma layers_lookup:
  assumes "distinct (concat (map fst ls))"
  shows "layers ls Map.empty K = Some v \<longleftrightarrow>
     (\<exists>(ks, r) \<in> set ls. \<exists>m < length ks. K = ks ! m \<and> v = r + int m)"
proof
  assume a: "layers ls Map.empty K = Some v"
  then have "K \<in> dom (layers ls Map.empty)" by blast
  then have "K \<in> set (concat (map fst ls))" by (simp add: layers_dom)
  then obtain ks r where in_ls: "(ks, r) \<in> set ls" and "K \<in> set ks" by auto
  then obtain m where m: "m < length ks" "K = ks ! m" by (auto simp: in_set_conv_nth)
  from layers_nth [OF assms in_ls m(1), of Map.empty] a m(2) have "v = r + int m" by simp
  with in_ls m show "\<exists>(ks, r) \<in> set ls. \<exists>m < length ks. K = ks ! m \<and> v = r + int m" by blast
next
  assume "\<exists>(ks, r) \<in> set ls. \<exists>m < length ks. K = ks ! m \<and> v = r + int m"
  then obtain ks r m where "(ks, r) \<in> set ls" "m < length ks" "K = ks ! m" "v = r + int m"
    by blast
  with layers_nth [OF assms this(1,2), of Map.empty] show "layers ls Map.empty K = Some v"
    by simp
qed

section \<open>No key is assigned twice\<close>

lemma distinct_map_coarser:
  assumes "distinct (map f xs)"
    and "\<And>x y. x \<in> set xs \<Longrightarrow> y \<in> set xs \<Longrightarrow> g x = g y \<Longrightarrow> f x = f y"
  shows "distinct (map g xs)"
proof -
  from assms(1) have d: "distinct xs" and i: "inj_on f (set xs)" by (simp_all add: distinct_map)
  have "inj_on g (set xs)"
  proof (rule inj_onI)
    fix x y assume x: "x \<in> set xs" and y: "y \<in> set xs" and e: "g x = g y"
    from assms(2) [OF x y e] have "f x = f y" .
    with i x y show "x = y" by (simp add: inj_on_def)
  qed
  with d show ?thesis by (simp add: distinct_map)
qed

lemma distinct_map_append:
  "distinct (map f xs) \<Longrightarrow> distinct (map f ys) \<Longrightarrow> f ` set xs \<inter> f ` set ys = {}
   \<Longrightarrow> distinct (map f (xs @ ys))"
  by simp

lemma distinct_append_pairing:
  assumes "distinct (map mset xs)" and "distinct (map mset ys)"
    and "\<forall>x \<in> set xs. pairing x = a" and "\<forall>y \<in> set ys. pairing y < a"
  shows "distinct (map mset (xs @ ys))"
proof -
  have "mset x \<noteq> mset y" if x: "x \<in> set xs" and y: "y \<in> set ys" for x y
  proof
    assume "mset x = mset y"
    then have "pairing x = pairing y" by (rule pairing_mset)
    with assms(3,4) x y show False by auto
  qed
  then have "mset ` set xs \<inter> mset ` set ys = {}" by blast
  with assms(1,2) show ?thesis by simp
qed

lemma unsuited_hands_props:
  assumes "h \<in> set unsuited_hands"
  shows "length h = 5 \<and> (\<forall>i \<in> set h. i < 13)"
proof -
  from assms consider "h \<in> set (straight_hands @ highcard_hands)" | "h \<in> set quad_hands"
    | "h \<in> set full_house_hands" | "h \<in> set trips_hands" | "h \<in> set two_pair_hands"
    | "h \<in> set pair_hands"
    unfolding unsuited_hands_def by auto
  then show ?thesis
  proof cases
    case 1 from pattern_hand_props [OF 1] show ?thesis by simp
  next
    case 2 from quad_hands_props [OF 2] show ?thesis by simp
  next
    case 3 from full_house_hands_props [OF 3] show ?thesis by simp
  next
    case 4 from trips_hands_props [OF 4] show ?thesis by simp
  next
    case 5 from two_pair_hands_props [OF 5] show ?thesis by simp
  next
    case 6 from pair_hands_props [OF 6] show ?thesis by simp
  qed
qed

lemma distinct_unsuited_hands: "distinct (map mset unsuited_hands)"
proof -
  have p1: "\<forall>y \<in> set pair_hands. pairing y < 9"
    using pair_hands_props by fastforce
  have d2: "distinct (map mset (two_pair_hands @ pair_hands))"
    by (rule distinct_append_pairing [OF distinct_two_pair_hands distinct_pair_hands _ p1])
      (simp add: two_pair_hands_props)
  have p2: "\<forall>y \<in> set (two_pair_hands @ pair_hands). pairing y < 11"
    using pair_hands_props two_pair_hands_props by fastforce
  have d3: "distinct (map mset (trips_hands @ two_pair_hands @ pair_hands))"
    by (rule distinct_append_pairing [OF distinct_trips_hands d2 _ p2])
      (simp add: trips_hands_props)
  have p3: "\<forall>y \<in> set (trips_hands @ two_pair_hands @ pair_hands). pairing y < 13"
    using pair_hands_props two_pair_hands_props trips_hands_props by fastforce
  have d4: "distinct (map mset (full_house_hands @ trips_hands @ two_pair_hands @ pair_hands))"
    by (rule distinct_append_pairing [OF distinct_full_house_hands d3 _ p3])
      (simp add: full_house_hands_props)
  have p4: "\<forall>y \<in> set (full_house_hands @ trips_hands @ two_pair_hands @ pair_hands).
              pairing y < 17"
    using pair_hands_props two_pair_hands_props trips_hands_props full_house_hands_props
    by fastforce
  have d5: "distinct (map mset (quad_hands @ full_house_hands @ trips_hands @ two_pair_hands
              @ pair_hands))"
    by (rule distinct_append_pairing [OF distinct_quad_hands d4 _ p4])
      (simp add: quad_hands_props)
  have q: "mset x \<noteq> mset y"
    if x: "x \<in> set (straight_hands @ highcard_hands)"
      and y: "y \<in> set (quad_hands @ full_house_hands @ trips_hands @ two_pair_hands @ pair_hands)"
    for x y
  proof
    assume "mset x = mset y"
    then have e: "pairing x = pairing y" by (rule pairing_mset)
    from pattern_hands_pairing [OF x] have "pairing x = 5" .
    moreover from y have "pairing y \<noteq> 5"
      using pair_hands_props two_pair_hands_props trips_hands_props full_house_hands_props
        quad_hands_props by fastforce
    ultimately show False using e by simp
  qed
  then have "mset ` set (straight_hands @ highcard_hands)
      \<inter> mset ` set (quad_hands @ full_house_hands @ trips_hands @ two_pair_hands @ pair_hands) = {}"
    by blast
  then show ?thesis
    unfolding unsuited_hands_def by (rule distinct_map_append [OF distinct_pattern_hands d5])
qed

lemma distinct_map_mprod:
  assumes "distinct (map mset hs)" and "\<forall>h \<in> set hs. \<forall>i \<in> set h. i < 13"
  shows "distinct (map mprod hs)"
proof (rule distinct_map_coarser [OF assms(1)])
  fix x y assume "x \<in> set hs" "y \<in> set hs" "mprod x = mprod y"
  with assms(2) show "mset x = mset y" by (intro mprod_inj) auto
qed

lemma distinct_unsuited_keys: "distinct (concat (map fst unsuited_layers))"
proof -
  have "concat (map fst unsuited_layers) = map mprod unsuited_hands"
    by (simp add: unsuited_layers_def unsuited_hands_def)
  moreover have "distinct (map mprod unsuited_hands)"
    by (rule distinct_map_mprod [OF distinct_unsuited_hands]) (simp add: unsuited_hands_props)
  ultimately show ?thesis by simp
qed

lemma distinct_flush_keys: "distinct (concat (map fst flush_layers))"
proof -
  have "concat (map fst flush_layers) = map mprod (straight_hands @ highcard_hands)"
    by (simp add: flush_layers_def)
  moreover have "distinct (map mprod (straight_hands @ highcard_hands))"
    by (rule distinct_map_mprod [OF distinct_pattern_hands]) (use pattern_hand_props in blast)
  ultimately show ?thesis by simp
qed

section \<open>The order of the four-of-a-kind pass\<close>

lemma pair_params_index: "map (\<lambda>(i, k). quad_index i k) pair_params = [0..<156]"
  by code_simp

lemma pair_params_iff: "(i, k) \<in> set pair_params \<longleftrightarrow> i < 13 \<and> k < 13 \<and> k \<noteq> i"
  by (auto simp: pair_params_def set_backwards_ranks set_remove1_ranks)

lemma pair_params_nth:
  assumes "i < 13" "k < 13" "k \<noteq> i"
  shows "quad_index i k < 156 \<and> pair_params ! quad_index i k = (i, k)"
proof -
  from assms have "(i, k) \<in> set pair_params" by (simp add: pair_params_iff)
  then obtain m where m: "m < length pair_params" "pair_params ! m = (i, k)"
    by (auto simp: in_set_conv_nth)
  from m(1) have m156: "m < 156" by (simp add: length_pair_params)
  have "map (\<lambda>(i, k). quad_index i k) pair_params ! m = quad_index i k"
    using m by simp
  then have "quad_index i k = m" using m156 by (simp only: pair_params_index) simp
  with m m156 show ?thesis by simp
qed

lemma quad_key: "mprod [i, i, i, i, k] = PRIMES ! i ^ 4 * PRIMES ! k"
  by (simp add: power4_eq_xxxx mult.assoc)

lemma quad_lookup:
  assumes "i < 13" "k < 13" "k \<noteq> i"
  shows "layers unsuited_layers Map.empty (PRIMES ! i ^ 4 * PRIMES ! k)
           = Some (11 + int (quad_index i k))"
proof -
  from pair_params_nth [OF assms] have m: "quad_index i k < 156"
    and p: "pair_params ! quad_index i k = (i, k)" by simp_all
  have len: "quad_index i k < length (map mprod quad_hands)"
    using m by (simp add: length_quad_hands)
  have "map mprod quad_hands ! quad_index i k = mprod [i, i, i, i, k]"
    using m p by (simp add: quad_hands_def length_pair_params del: mprod_Cons)
  then have k: "map mprod quad_hands ! quad_index i k = PRIMES ! i ^ 4 * PRIMES ! k"
    by (simp only: quad_key)
  have "(map mprod quad_hands, 11) \<in> set unsuited_layers" by (simp add: unsuited_layers_def)
  from layers_nth [OF distinct_unsuited_keys this len, of Map.empty] show ?thesis
    by (simp only: k)
qed

lemma quad_index_order:
  assumes "i < 13" "k < 13" "k \<noteq> i" "i' < 13" "k' < 13" "k' \<noteq> i'"
    and "i' < i \<or> (i' = i \<and> k' < k)"
  shows "quad_index i k < quad_index i' k'"
proof -
  have a: "(if i < k then 12 - k else 11 - k) < 12" using assms(1-3) by auto
  from assms(7) show ?thesis
  proof
    assume "i' < i"
    then have "12 * (12 - i) + 12 \<le> 12 * (12 - i')" using assms(1) by simp
    with a show ?thesis unfolding quad_index_def by linarith
  next
    assume "i' = i \<and> k' < k"
    with assms(1-6) show ?thesis unfolding quad_index_def by auto
  qed
qed

section \<open>Claims about the draw tables\<close>

text \<open>
  C6 asks that the two-pair pass of the 3-card table key, for the ranks r and k
  it iterates, the signature prime(r)^2 * prime(k). The loop reads the stale
  variable \<^verbatim>\<open>i\<close> instead, which is 0 after the preceding loops: run on an
  empty dictionary from the first two-pair rank, it leaves the signature of a pair
  of aces with a king (r = 12, k = 11) without an entry and files twelve ranks
  under prime(0)^2 * prime(11), the signature of a pair of deuces with a king.
\<close>

theorem ThreeCards_two_pairs_stale_index:
  "\<exists>d. two_pairs_loop (last backwards_ranks) (Map.empty, ThreeCards_MAX_THREE_OF_A_KIND + 1)
          = Inr (d, 1179)
      \<and> d (PRIMES ! 12 ^ 2 * PRIMES ! 11) = None
      \<and> d (PRIMES ! 0 ^ 2 * PRIMES ! 11) =
          Some (Ranks [1023, 1048, 1060, 1072, 1084, 1096, 1108, 1120, 1132, 1144, 1156, 1168])"
proof -
  let ?ps = "map (\<lambda>(r, k). PRIMES ! 0 ^ 2 * PRIMES ! k) pair_params"
  have i: "last backwards_ranks = 0" by (simp add: backwards_ranks_def)
  have len: "length ?ps = 156" by (simp add: pair_params_def backwards_ranks_def)
  from add_next_loop [OF lists_only_empty, of ?ps 1023]
  have res: "two_pairs_loop (last backwards_ranks) (Map.empty, ThreeCards_MAX_THREE_OF_A_KIND + 1)
      = Inr (appended Map.empty 1023 ?ps, 1179)"
    by (simp only: two_pairs_loop_flat i ThreeCards_MAX_THREE_OF_A_KIND_def len) simp
  have ps: "?ps = concat (map (\<lambda>r. map (\<lambda>k. 4 * PRIMES ! k) (remove1 r backwards_ranks)) backwards_ranks)"
    by (rule two_pairs_products)
  have a: "appended Map.empty 1023 ?ps (PRIMES ! 12 ^ 2 * PRIMES ! 11) = None"
    unfolding ps by (simp add: appended_def backwards_ranks_def PRIMES_def)
  have b: "appended Map.empty 1023 ?ps (PRIMES ! 0 ^ 2 * PRIMES ! 11) =
      Some (Ranks [1023, 1048, 1060, 1072, 1084, 1096, 1108, 1120, 1132, 1144, 1156, 1168])"
    unfolding ps by (simp add: appended_def old_ranks_def backwards_ranks_def PRIMES_def)
  from res a b show ?thesis by blast
qed

section \<open>Claims about the multi-card evaluator\<close>





text \<open>
  C9, as the code has it. An evaluation is a finite enumeration: the scorer is
  called at most 252 times for any input (once for five cards, on the 5-card
  combinations for six or seven, on the hole pairings for eight to ten), and
  the result depends on the scorer only through these calls. On the
  8-to-10-card path the pairings are the cards at the ten pairs of positions
  i < j among the first five, C(5,2) = 10 of them and not C(4,2) = 6; the loop
  scores them in order, each once, and stops only when the scorer raises.
\<close>

theorem evaluation_is_bounded:
  "length (evaluate_calls score_five cards) \<le> 252
   \<and> (\<forall>g. (\<forall>c \<in> set (evaluate_calls score_five cards). g c = score_five c) \<longrightarrow>
          evaluate (Evaluator_handlers g) cards = evaluate (Evaluator_handlers score_five) cards)
   \<and> (length cards \<in> {8, 9, 10} \<longrightarrow>
        all2cardscombos cards = map (\<lambda>(i, j). [cards ! i, cards ! j]) hole_pairs
        \<and> distinct hole_pairs \<and> length (all2cardscombos cards) = 10
        \<and> all5cardscombos cards = map (\<lambda>a. a @ drop 5 cards) (all2cardscombos cards)
        \<and> (\<exists>n \<le> 10. evaluate_calls score_five cards = take n (all5cardscombos cards))
        \<and> ((\<forall>c \<in> set (all5cardscombos cards). \<exists>s. score_five c = Inr s) \<longrightarrow>
              evaluate_calls score_five cards = all5cardscombos cards))"
proof -
  have a: "length (evaluate_calls score_five cards) \<le> 252"
    using length_evaluate_calls [of score_five cards] by simp
  have b: "\<forall>g. (\<forall>c \<in> set (evaluate_calls score_five cards). g c = score_five c) \<longrightarrow>
          evaluate (Evaluator_handlers g) cards = evaluate (Evaluator_handlers score_five) cards"
    using evaluate_calls_cong [of score_five cards] by blast
  have c: "all2cardscombos cards = map (\<lambda>(i, j). [cards ! i, cards ! j]) hole_pairs
        \<and> distinct hole_pairs \<and> length (all2cardscombos cards) = 10
        \<and> all5cardscombos cards = map (\<lambda>a. a @ drop 5 cards) (all2cardscombos cards)
        \<and> (\<exists>n \<le> 10. evaluate_calls score_five cards = take n (all5cardscombos cards))
        \<and> ((\<forall>c \<in> set (all5cardscombos cards). \<exists>s. score_five c = Inr s) \<longrightarrow>
              evaluate_calls score_five cards = all5cardscombos cards)"
    if len: "length cards \<in> {8, 9, 10}"
  proof -
    from len have five: "5 \<le> length cards" by auto
    from len have ec: "evaluate_calls score_five cards = loop_calls score_five (all5cardscombos cards)"
      by (auto simp: evaluate_calls_def)
    have l10: "length (all5cardscombos cards) = 10"
      using five by (simp add: all5cardscombos_length five_choose_two)
    have c1: "all2cardscombos cards = map (\<lambda>(i, j). [cards ! i, cards ! j]) hole_pairs"
      by (rule all2cardscombos_pairs [OF five])
    have c2: "distinct hole_pairs" by (simp add: hole_pairs_distinct)
    have c3: "length (all2cardscombos cards) = 10"
      using five by (simp add: length_all2cardscombos five_choose_two)
    have c4: "all5cardscombos cards = map (\<lambda>a. a @ drop 5 cards) (all2cardscombos cards)"
      by (simp add: all5cardscombos_def)
    from loop_calls_prefix [of "all5cardscombos cards" score_five]
    have c5: "\<exists>n \<le> 10. evaluate_calls score_five cards = take n (all5cardscombos cards)"
      unfolding ec l10 .
    have c6: "(\<forall>c \<in> set (all5cardscombos cards). \<exists>s. score_five c = Inr s) \<longrightarrow>
              evaluate_calls score_five cards = all5cardscombos cards"
      unfolding ec using loop_calls_all [of "all5cardscombos cards" score_five] by blast
    from c1 c2 c3 c4 c5 c6 show ?thesis by (intro conjI)
  qed
  have c': "length cards \<in> {8, 9, 10} \<longrightarrow>
        all2cardscombos cards = map (\<lambda>(i, j). [cards ! i, cards ! j]) hole_pairs
        \<and> distinct hole_pairs \<and> length (all2cardscombos cards) = 10
        \<and> all5cardscombos cards = map (\<lambda>a. a @ drop 5 cards) (all2cardscombos cards)
        \<and> (\<exists>n \<le> 10. evaluate_calls score_five cards = take n (all5cardscombos cards))
        \<and> ((\<forall>c \<in> set (all5cardscombos cards). \<exists>s. score_five c = Inr s) \<longrightarrow>
              evaluate_calls score_five cards = all5cardscombos cards)"
    using c by (rule impI)
  show ?thesis by (intro conjI a b c')
qed

theorem evaluation_is_bounded_witness:
  "length [9, 8, 7, 6, 5, 4, 3, 2, 1 :: int] \<in> {8, 9, 10}
   \<and> length (all2cardscombos [9, 8, 7, 6, 5, 4, 3, 2, 1 :: int]) = 10
   \<and> length (evaluate_calls (\<lambda>cs. Inr (sum_list cs)) [9, 8, 7, 6, 5, 4, 3, 2, 1 :: int]) = 10"
proof -
  define c9 :: "int list" where "c9 = [9, 8, 7, 6, 5, 4, 3, 2, 1]"
  define any :: "int list \<Rightarrow> error + int" where "any = (\<lambda>cs. Inr (sum_list cs))"
  have len: "length c9 \<in> {8, 9, 10}" by (simp add: c9_def)
  have "length c9 \<in> {8, 9, 10} \<longrightarrow>
        all2cardscombos c9 = map (\<lambda>(i, j). [c9 ! i, c9 ! j]) hole_pairs
        \<and> distinct hole_pairs \<and> length (all2cardscombos c9) = 10
        \<and> all5cardscombos c9 = map (\<lambda>a. a @ drop 5 c9) (all2cardscombos c9)
        \<and> (\<exists>n \<le> 10. evaluate_calls any c9 = take n (all5cardscombos c9))
        \<and> ((\<forall>c \<in> set (all5cardscombos c9). \<exists>s. any c = Inr s) \<longrightarrow>
              evaluate_calls any c9 = all5cardscombos c9)"
    using evaluation_is_bounded [of any c9] by (elim conjE)
  with len have l: "length (all2cardscombos c9) = 10"
    and m: "all5cardscombos c9 = map (\<lambda>a. a @ drop 5 c9) (all2cardscombos c9)"
    and e: "(\<forall>c \<in> set (all5cardscombos c9). \<exists>s. any c = Inr s) \<longrightarrow>
              evaluate_calls any c9 = all5cardscombos c9"
    by blast+
  have "\<forall>c \<in> set (all5cardscombos c9). \<exists>s. any c = Inr s" by (simp add: any_def)
  with e have "evaluate_calls any c9 = all5cardscombos c9" by simp
  with l m have "length (evaluate_calls any c9) = 10" by simp
  with len l show ?thesis unfolding c9_def any_def by simp
qed

text \<open>
  C9 as stated fails: an 8-card hand has more than six hole pairings.
\<close>

theorem six_pairings_counterexample:
  "\<not> length (all2cardscombos [8, 7, 6, 5, 4, 3, 2, 1 :: int]) \<le> 6"
proof -
  have "all2cardscombos [8, 7, 6, 5, 4, 3, 2, 1 :: int] =
      [[8, 7], [8, 6], [8, 5], [8, 4], [7, 6], [7, 5], [7, 4], [6, 5], [6, 4], [5, 4]]"
    by (simp add: all2cardscombos_def combinations_5_2)
  then show ?thesis by simp
qed

section \<open>Claims about the bit-sequence generator\<close>

lemma yields_zero_nil: "yields n 0 = Inr fs \<Longrightarrow> fs = []"
  by (cases n) (simp_all add: gen_next_def next_bits_def)

text \<open>
  C7. For a seed with k bits set, every value the generator yields has exactly k
  bits set, is greater than its predecessor (the seed for the first value) and
  is the least such integer with k bits set; the quotient in the identity is
  the floor division of \<^const>\<open>next_bits\<close>. A positive seed yields any number of
  values; the seed 0 (k = 0) yields none, its first request divides by zero.
\<close>

theorem next_word_next_bit_permutation:
  assumes "0 \<le> bits" and "popcount bits = k"
  shows "(0 < bits \<longrightarrow> (\<exists>fs. yields n (next_word bits) = Inr fs \<and> length fs = n))
       \<and> (\<forall>fs i. yields n (next_word bits) = Inr fs \<and> i < length fs \<longrightarrow>
             popcount (fs ! i) = k \<and> (bits # fs) ! i < fs ! i
             \<and> (\<forall>x. (bits # fs) ! i < x \<and> popcount x = k \<longrightarrow> fs ! i \<le> x))"
proof (cases "bits = 0")
  case True
  then show ?thesis using yields_zero_nil [of n] by (auto simp: next_word_def)
next
  case False
  with assms(1) have pos: "0 < bits" by simp
  from yields_pos [OF pos, of n] obtain fs where fs: "yields n bits = Inr fs" "length fs = n"
    "\<forall>i < n. popcount (fs ! i) = popcount bits \<and> (bits # fs) ! i < fs ! i
                \<and> (\<forall>x. (bits # fs) ! i < x \<and> popcount x = popcount bits \<longrightarrow> fs ! i \<le> x)"
    by blast
  have one: "0 < bits \<longrightarrow> (\<exists>fs. yields n (next_word bits) = Inr fs \<and> length fs = n)"
    using fs(1,2) by (simp add: next_word_def)
  have two: "\<forall>fs' i. yields n (next_word bits) = Inr fs' \<and> i < length fs' \<longrightarrow>
             popcount (fs' ! i) = k \<and> (bits # fs') ! i < fs' ! i
             \<and> (\<forall>x. (bits # fs') ! i < x \<and> popcount x = k \<longrightarrow> fs' ! i \<le> x)"
  proof (intro allI impI)
    fix fs' i
    assume a: "yields n (next_word bits) = Inr fs' \<and> i < length fs'"
    with fs(1) have e: "fs' = fs" by (simp add: next_word_def)
    with a fs(2) have "i < n" by simp
    with fs(3) have "popcount (fs ! i) = popcount bits \<and> (bits # fs) ! i < fs ! i
                \<and> (\<forall>x. (bits # fs) ! i < x \<and> popcount x = popcount bits \<longrightarrow> fs ! i \<le> x)"
      by blast
    then show "popcount (fs' ! i) = k \<and> (bits # fs') ! i < fs' ! i
             \<and> (\<forall>x. (bits # fs') ! i < x \<and> popcount x = k \<longrightarrow> fs' ! i \<le> x)"
      unfolding e assms(2) .
  qed
  from one two show ?thesis ..
qed

lemma yields_3_7: "yields 3 (next_word 7) = Inr [11, 13, 14]"
  by (simp add: eval_nat_numeral next_word_def gen_next_def next_bits_def)

theorem next_word_next_bit_permutation_witness:
  "(0::int) \<le> 7 \<and> popcount 7 = 3
   \<and> (\<exists>fs. yields 3 (next_word 7) = Inr fs \<and> length fs = 3
         \<and> popcount (fs ! 2) = 3 \<and> (7 # fs) ! 2 < fs ! 2)"
proof -
  have a: "(0::int) \<le> 7" by simp
  have b: "popcount 7 = 3" by (simp add: popcount.simps)
  have c: "(0::int) < 7" by simp
  from next_word_next_bit_permutation [OF a b, of 3]
  have one: "\<exists>fs. yields 3 (next_word 7) = Inr fs \<and> length fs = 3"
    and two: "\<forall>fs i. yields 3 (next_word 7) = Inr fs \<and> i < length fs \<longrightarrow>
             popcount (fs ! i) = 3 \<and> (7 # fs) ! i < fs ! i
             \<and> (\<forall>x. (7 # fs) ! i < x \<and> popcount x = 3 \<longrightarrow> fs ! i \<le> x)"
    using c by blast+
  from one obtain fs where fs: "yields 3 (next_word 7) = Inr fs" "length fs = 3" by blast
  then have "yields 3 (next_word 7) = Inr fs \<and> 2 < length fs" by simp
  with two have "popcount (fs ! 2) = 3 \<and> (7 # fs) ! 2 < fs ! 2" by blast
  with fs a b show ?thesis by blast
qed

text \<open>
  C10. The generator never yields its seed: every value yielded for a seed with
  k bits set (a non-negative integer) is greater than the seed, the first one
  in particular, so an enumeration that needs the seed's own pattern has to add
  it separately. A positive seed yields any number of values; the seed 0 yields
  none, its first request divides by zero.
\<close>

theorem next_word_never_yields_seed:
  assumes "0 \<le> bits"
  shows "(0 < bits \<longrightarrow> (\<exists>fs. yields n (next_word bits) = Inr fs \<and> length fs = n))
       \<and> (\<forall>fs. yields n (next_word bits) = Inr fs \<longrightarrow>
             (\<forall>f \<in> set fs. bits < f) \<and> bits \<notin> set fs \<and> (fs \<noteq> [] \<longrightarrow> bits < hd fs))"
proof (cases "bits = 0")
  case True
  then show ?thesis using yields_zero_nil [of n] by (auto simp: next_word_def)
next
  case False
  with assms have pos: "0 < bits" by simp
  from yields_pos [OF pos, of n] have one: "\<exists>fs. yields n (next_word bits) = Inr fs \<and> length fs = n"
    unfolding next_word_def by blast
  have two: "(\<forall>f \<in> set fs. bits < f) \<and> bits \<notin> set fs \<and> (fs \<noteq> [] \<longrightarrow> bits < hd fs)"
    if y: "yields n (next_word bits) = Inr fs" for fs
  proof -
    from y have "yields n bits = Inr fs" by (simp only: next_word_def)
    from yields_chain [OF pos this] have gt: "\<forall>f \<in> set fs. bits < f" by simp
    then have "bits \<notin> set fs" by auto
    moreover from gt have "fs \<noteq> [] \<longrightarrow> bits < hd fs" by (cases fs) simp_all
    ultimately show ?thesis using gt by blast
  qed
  from one two show ?thesis by blast
qed

theorem next_word_never_yields_seed_witness:
  "(0::int) \<le> 7
   \<and> (\<exists>fs. yields 3 (next_word 7) = Inr fs \<and> length fs = 3 \<and> 7 < hd fs \<and> 7 < fs ! 2
         \<and> 7 \<notin> set fs)"
proof -
  have a: "(0::int) \<le> 7" by simp
  from next_word_never_yields_seed [OF a, of 3]
  have two: "\<forall>fs. yields 3 (next_word 7) = Inr fs \<longrightarrow>
             (\<forall>f \<in> set fs. 7 < f) \<and> 7 \<notin> set fs \<and> (fs \<noteq> [] \<longrightarrow> 7 < hd fs)"
    by blast
  from two yields_3_7 have "7 < hd [11, 13, 14 :: int] \<and> (7::int) \<notin> set [11, 13, 14]"
    by blast
  with a yields_3_7 show ?thesis by simp
qed

section \<open>Claims about the five-card table\<close>

text \<open>
  C3. The four-of-a-kind pass assigns its ranks in nested descending order of
  quad rank and kicker: the quads of rank i with kicker k get the rank
  11 + \<^const>\<open>quad_index\<close> i k, in the four-of-a-kind range, so of two quad hands the
  one with the higher quad rank, or with the same quad rank and the higher
  kicker, has the lower rank. Quad aces with a king rank 11, quad aces with a
  queen 12, quad kings with an ace 23.
\<close>

theorem quads_in_descending_order:
  "\<exists>t. build = Inr t
     \<and> (\<forall>i k. i < 13 \<and> k < 13 \<and> k \<noteq> i \<longrightarrow>
            unsuited t (PRIMES ! i ^ 4 * PRIMES ! k) = Some (11 + int (quad_index i k))
            \<and> MAX_STRAIGHT_FLUSH < 11 + int (quad_index i k)
            \<and> 11 + int (quad_index i k) \<le> MAX_FOUR_OF_A_KIND)
     \<and> (\<forall>i k i' k' r r'. i < 13 \<and> k < 13 \<and> k \<noteq> i \<and> i' < 13 \<and> k' < 13 \<and> k' \<noteq> i'
            \<and> (i' < i \<or> (i' = i \<and> k' < k))
            \<and> unsuited t (PRIMES ! i ^ 4 * PRIMES ! k) = Some r
            \<and> unsuited t (PRIMES ! i' ^ 4 * PRIMES ! k') = Some r' \<longrightarrow> r < r')
     \<and> unsuited t (PRIMES ! 12 ^ 4 * PRIMES ! 11) = Some 11
     \<and> unsuited t (PRIMES ! 12 ^ 4 * PRIMES ! 10) = Some 12
     \<and> unsuited t (PRIMES ! 11 ^ 4 * PRIMES ! 12) = Some 23"
proof -
  define t where "t = \<lparr>flush = layers flush_layers Map.empty,
                        unsuited = layers unsuited_layers Map.empty\<rparr>"
  have U: "unsuited t = layers unsuited_layers Map.empty" by (simp add: t_def)
  have bt: "build = Inr t" unfolding t_def by (rule build_eq)
  have a: "\<forall>i k. i < 13 \<and> k < 13 \<and> k \<noteq> i \<longrightarrow>
            unsuited t (PRIMES ! i ^ 4 * PRIMES ! k) = Some (11 + int (quad_index i k))
            \<and> MAX_STRAIGHT_FLUSH < 11 + int (quad_index i k)
            \<and> 11 + int (quad_index i k) \<le> MAX_FOUR_OF_A_KIND"
  proof (intro allI impI)
    fix i k :: nat
    assume h: "i < 13 \<and> k < 13 \<and> k \<noteq> i"
    then have v: "i < 13" "k < 13" "k \<noteq> i" by simp_all
    from pair_params_nth [OF v] have "quad_index i k < 156" by simp
    with quad_lookup [OF v, folded U]
    show "unsuited t (PRIMES ! i ^ 4 * PRIMES ! k) = Some (11 + int (quad_index i k))
            \<and> MAX_STRAIGHT_FLUSH < 11 + int (quad_index i k)
            \<and> 11 + int (quad_index i k) \<le> MAX_FOUR_OF_A_KIND"
      by (simp add: MAX_STRAIGHT_FLUSH_def MAX_FOUR_OF_A_KIND_def)
  qed
  have b: "\<forall>i k i' k' r r'. i < 13 \<and> k < 13 \<and> k \<noteq> i \<and> i' < 13 \<and> k' < 13 \<and> k' \<noteq> i'
            \<and> (i' < i \<or> (i' = i \<and> k' < k))
            \<and> unsuited t (PRIMES ! i ^ 4 * PRIMES ! k) = Some r
            \<and> unsuited t (PRIMES ! i' ^ 4 * PRIMES ! k') = Some r' \<longrightarrow> r < r'"
  proof (intro allI impI)
    fix i k i' k' :: nat and r r' :: int
    assume h: "i < 13 \<and> k < 13 \<and> k \<noteq> i \<and> i' < 13 \<and> k' < 13 \<and> k' \<noteq> i'
            \<and> (i' < i \<or> (i' = i \<and> k' < k))
            \<and> unsuited t (PRIMES ! i ^ 4 * PRIMES ! k) = Some r
            \<and> unsuited t (PRIMES ! i' ^ 4 * PRIMES ! k') = Some r'"
    then have v: "i < 13" "k < 13" "k \<noteq> i" and v': "i' < 13" "k' < 13" "k' \<noteq> i'"
      and o: "i' < i \<or> (i' = i \<and> k' < k)"
      and r: "unsuited t (PRIMES ! i ^ 4 * PRIMES ! k) = Some r"
      and r': "unsuited t (PRIMES ! i' ^ 4 * PRIMES ! k') = Some r'" by simp_all
    from r quad_lookup [OF v, folded U] have "r = 11 + int (quad_index i k)" by simp
    moreover from r' quad_lookup [OF v', folded U] have "r' = 11 + int (quad_index i' k')" by simp
    moreover note quad_index_order [OF v v' o]
    ultimately show "r < r'" by simp
  qed
  have c: "unsuited t (PRIMES ! 12 ^ 4 * PRIMES ! 11) = Some 11"
    using quad_lookup [of 12 11, folded U] by (simp add: quad_index_def)
  have d: "unsuited t (PRIMES ! 12 ^ 4 * PRIMES ! 10) = Some 12"
    using quad_lookup [of 12 10, folded U] by (simp add: quad_index_def)
  have e: "unsuited t (PRIMES ! 11 ^ 4 * PRIMES ! 12) = Some 23"
    using quad_lookup [of 11 12, folded U] by (simp add: quad_index_def)
  show ?thesis by (intro exI [of _ t] conjI bt a b c d e)
qed

theorem quads_in_descending_order_witness:
  "\<exists>t. build = Inr t
     \<and> unsuited t (PRIMES ! 12 ^ 4 * PRIMES ! 11) = Some 11
     \<and> unsuited t (PRIMES ! 11 ^ 4 * PRIMES ! 12) = Some 23
     \<and> unsuited t (PRIMES ! 12 ^ 4 * PRIMES ! 11) = Some (11 + int (quad_index 12 11))"
proof -
  obtain t where bt: "build = Inr t"
    and a: "\<forall>i k. i < 13 \<and> k < 13 \<and> k \<noteq> i \<longrightarrow>
            unsuited t (PRIMES ! i ^ 4 * PRIMES ! k) = Some (11 + int (quad_index i k))
            \<and> MAX_STRAIGHT_FLUSH < 11 + int (quad_index i k)
            \<and> 11 + int (quad_index i k) \<le> MAX_FOUR_OF_A_KIND"
    and b: "\<forall>i k i' k' r r'. i < 13 \<and> k < 13 \<and> k \<noteq> i \<and> i' < 13 \<and> k' < 13 \<and> k' \<noteq> i'
            \<and> (i' < i \<or> (i' = i \<and> k' < k))
            \<and> unsuited t (PRIMES ! i ^ 4 * PRIMES ! k) = Some r
            \<and> unsuited t (PRIMES ! i' ^ 4 * PRIMES ! k') = Some r' \<longrightarrow> r < r'"
    and c: "unsuited t (PRIMES ! 12 ^ 4 * PRIMES ! 11) = Some 11"
    and e: "unsuited t (PRIMES ! 11 ^ 4 * PRIMES ! 12) = Some 23"
    using quads_in_descending_order by (elim exE conjE) (rule that)
  have "(12::nat) < 13 \<and> (11::nat) < 13 \<and> (11::nat) \<noteq> 12" by simp
  with a have f: "unsuited t (PRIMES ! 12 ^ 4 * PRIMES ! 11) = Some (11 + int (quad_index 12 11))"
    by blast
  have "(12::nat) < 13 \<and> (11::nat) < 13 \<and> (11::nat) \<noteq> 12 \<and> (11::nat) < 13 \<and> (12::nat) < 13
      \<and> (12::nat) \<noteq> 11 \<and> ((11::nat) < 12 \<or> ((11::nat) = 12 \<and> (12::nat) < 11))
      \<and> unsuited t (PRIMES ! 12 ^ 4 * PRIMES ! 11) = Some 11
      \<and> unsuited t (PRIMES ! 11 ^ 4 * PRIMES ! 12) = Some 23"
    using c e by simp
  with b have "(11::int) < 23" by blast
  from bt c e f show ?thesis by blast
qed

end
